theory Spec2Isabelle
  imports Main "HOL-Library.Word"
begin

section \<open>The ATHYG deserialiser (ATHYG.hpp)\<close>

text \<open>
  The header defines one struct, \<open>ATHYG\<close>, with the private helpers \<open>ReadAllText\<close>,
  \<open>Split\<close>, \<open>ToArray\<close> and \<open>TryParse\<close>, the three row types \<open>V1\<close>, \<open>V2\<close>, \<open>V3\<close> and the
  public operation \<open>Load\<close>. Each of them is translated below; a thrown
  \<open>std::runtime_error\<close> is a value of \<open>error\<close>, named after the message it carries.
\<close>

datatype error =
    InvalidFilePath        \<comment> \<open>"Invalid file path" (ReadAllText)\<close>
  | ArraySizeMismatch      \<comment> \<open>"Vector -> Array size mismatch!" (ToArray)\<close>
  | ElementCountMismatch   \<comment> \<open>"Number of elements not consistent with ATHYG version!" (Load)\<close>
  | PathNotValid           \<comment> \<open>"Path is not valid." (Load)\<close>

subsection \<open>std::string_view\<close>

text \<open>
  A \<open>std::string_view\<close> is a pointer into a character buffer and a length. The model keeps
  the buffer, the offset of \<open>data()\<close> in it and \<open>size()\<close>. The buffer is the text of the
  \<open>std::string\<close> the view was taken from; the terminating NUL that follows the text in
  memory is the end of the list. The view \<open>std::string_view{}\<close>, whose \<open>data()\<close> is
  \<open>nullptr\<close> and whose size is 0, is \<open>NullView\<close>.
\<close>

datatype string_view =
    is_View: View (buffer: string) (offset: nat) (size_sv: nat)
  | NullView
where
  "buffer NullView = []"
| "offset NullView = 0"
| "size_sv NullView = 0"

definition data_ptr :: "string_view \<Rightarrow> (string \<times> nat) option" where
  \<comment> \<open>\<open>data()\<close> as a pointer: the buffer and the place in it, \<open>None\<close> for \<open>nullptr\<close>\<close>
  "data_ptr v = (if is_View v then Some (buffer v, offset v) else None)"

definition to_view :: "string \<Rightarrow> string_view" where
  \<comment> \<open>the implicit conversion of a \<open>std::string\<close> to a view of all of it\<close>
  "to_view s = View s 0 (length s)"

definition sv_str :: "string_view \<Rightarrow> string" where
  \<comment> \<open>the characters viewed: \<open>std::string(_str)\<close>, and what \<open>==\<close> compares\<close>
  "sv_str v = take (size_sv v) (drop (offset v) (buffer v))"

definition sv_data :: "string_view \<Rightarrow> string" where
  \<comment> \<open>the C string a \<open>char*\<close> reader sees at \<open>data()\<close>: it is not cut at \<open>size()\<close>\<close>
  "sv_data v = drop (offset v) (buffer v)"

primrec index_of :: "char \<Rightarrow> string \<Rightarrow> nat option" where
  "index_of c [] = None"
| "index_of c (x # xs) = (if x = c then Some 0 else map_option Suc (index_of c xs))"

definition find_sv :: "string_view \<Rightarrow> char \<Rightarrow> nat \<Rightarrow> nat option" where
  \<comment> \<open>\<open>_string.find(_divider, start)\<close>; \<open>None\<close> is \<open>npos\<close>\<close>
  "find_sv v c start = map_option (\<lambda>i. start + i) (index_of c (drop start (sv_str v)))"

definition substr :: "string_view \<Rightarrow> nat \<Rightarrow> nat option \<Rightarrow> string_view" where
  \<comment> \<open>\<open>substr(pos, count)\<close>, the count \<open>None\<close> being the default \<open>npos\<close>. Both calls in
      \<open>Split\<close> have \<open>pos \<le> size()\<close>, so \<open>std::out_of_range\<close> is never thrown there.
      A part of the null view is the null view.\<close>
  "substr v pos count =
     (let rlen = (case count of None \<Rightarrow> size_sv v - pos | Some n \<Rightarrow> min n (size_sv v - pos))
      in if is_View v then View (buffer v) (offset v + pos) rlen else NullView)"

subsection \<open>Split\<close>

function Split_loop :: "string_view \<Rightarrow> char \<Rightarrow> nat \<Rightarrow> string_view list \<Rightarrow> string_view list" where
  "Split_loop s d start result =
     (case find_sv s d start of
        Some e \<Rightarrow> Split_loop s d (e + 1) (result @ [substr s start (Some (e - start))])
      | None \<Rightarrow> result @ [substr s start None])"
  by pat_completeness auto

lemma index_of_less: "index_of c xs = Some i \<Longrightarrow> i < length xs"
  by (induction xs arbitrary: i) (auto split: if_splits)

lemma find_sv_bounds:
  assumes "find_sv s d start = Some e"
  shows "start \<le> e" and "e < size_sv s"
proof -
  from assms obtain i where i: "index_of d (drop start (sv_str s)) = Some i" and e: "e = start + i"
    by (auto simp: find_sv_def)
  show "start \<le> e" using e by simp
  from index_of_less [OF i] have "start + i < length (sv_str s)" by simp
  then show "e < size_sv s" using e by (simp add: sv_str_def)
qed

termination Split_loop
proof (relation "measure (\<lambda>(s, d, start, result). Suc (size_sv s) - start)")
  show "wf (measure (\<lambda>(s, d, start, result). Suc (size_sv s) - start))" by simp
next
  fix s d start result e
  assume "find_sv s d start = Some e"
  from find_sv_bounds [OF this]
  show "((s, d, e + 1, result @ [substr s start (Some (e - start))]), (s, d, start, result))
          \<in> measure (\<lambda>(s, d, start, result). Suc (size_sv s) - start)"
    by simp
qed

declare Split_loop.simps [simp del]

definition Split :: "string_view \<Rightarrow> char \<Rightarrow> nat \<Rightarrow> string_view list" where
  \<comment> \<open>\<open>_capacity\<close> only reserves storage\<close>
  "Split str divider capacity = Split_loop str divider 0 []"

subsection \<open>The C library's conversions\<close>

text \<open>
  \<open>TryParse\<close> hands \<open>_str.data()\<close> to \<open>strtol\<close>, \<open>strtoul\<close>, \<open>strtod\<close> and their
  siblings. These are functions of the C library, modelled here after ISO C 7.22.1 in the
  "C" locale and on an LP64 platform (\<open>long\<close>, \<open>long long\<close> and \<open>size_t\<close> have 64 bits,
  \<open>int\<close> 32, \<open>short\<close> 16). A conversion returns its value and the number of characters
  between \<open>nptr\<close> and the end pointer \<open>e\<close>; that number is 0 exactly when \<open>e == nptr\<close>.
  A NUL inside the text is neither white space, sign nor digit, so a scan stops there as it
  stops at the end of the list.
\<close>

definition isspace :: "char \<Rightarrow> bool" where
  "isspace c = (c \<in> set [CHR 0x20, CHR 0x09, CHR 0x0A, CHR 0x0B, CHR 0x0C, CHR 0x0D])"

definition isdigit :: "char \<Rightarrow> bool" where
  "isdigit c = (c \<in> set ''0123456789'')"

definition isxdigit :: "char \<Rightarrow> bool" where
  "isxdigit c = (c \<in> set ''0123456789abcdefABCDEF'')"

definition digit_val :: "char \<Rightarrow> nat" where
  "digit_val c =
     (if isdigit c then of_char c - 48
      else if c \<in> set ''abcdef'' then of_char c - 87
      else of_char c - 55)"

definition digits_val :: "nat \<Rightarrow> string \<Rightarrow> nat" where
  \<comment> \<open>the number a digit string writes in the given base\<close>
  "digits_val base ds = foldl (\<lambda>a c. base * a + digit_val c) 0 ds"

definition sign_len :: "string \<Rightarrow> nat" where
  "sign_len s = (case s of [] \<Rightarrow> 0 | c # _ \<Rightarrow> if c = CHR ''+'' \<or> c = CHR ''-'' then 1 else 0)"

definition is_neg :: "string \<Rightarrow> bool" where
  "is_neg s = (case s of [] \<Rightarrow> False | c # _ \<Rightarrow> c = CHR ''-'')"

definition scan_int :: "string \<Rightarrow> (bool \<times> nat \<times> nat) option" where
  \<comment> \<open>white space, an optional sign, decimal digits: \<open>None\<close> when there is no digit (no
      conversion), else the sign, the magnitude and the length of what was read\<close>
  "scan_int nptr =
     (let ws = takeWhile isspace nptr;
          s1 = dropWhile isspace nptr;
          ds = takeWhile isdigit (drop (sign_len s1) s1)
      in if ds = [] then None
         else Some (is_neg s1, digits_val 10 ds, length ws + sign_len s1 + length ds))"

definition strtoul :: "string \<Rightarrow> 64 word \<times> nat" where
  \<comment> \<open>out of range: \<open>ULONG_MAX\<close>; a minus sign negates in the return type\<close>
  "strtoul nptr =
     (case scan_int nptr of
        None \<Rightarrow> (0, 0)
      | Some (neg, n, k) \<Rightarrow>
          (if 2 ^ 64 - 1 < n then - 1 else if neg then - of_nat n else of_nat n, k))"

definition strtol :: "string \<Rightarrow> 64 word \<times> nat" where
  \<comment> \<open>out of range: \<open>LONG_MIN\<close> or \<open>LONG_MAX\<close> after the sign; the word is read with \<open>sint\<close>\<close>
  "strtol nptr =
     (case scan_int nptr of
        None \<Rightarrow> (0, 0)
      | Some (neg, n, k) \<Rightarrow>
          (if neg then (if 2 ^ 63 < n then 2 ^ 63 else - of_nat n)
           else (if 2 ^ 63 - 1 < n then 2 ^ 63 - 1 else of_nat n), k))"

text \<open>
  A \<open>double\<close> is kept as the exact value of the text \<open>strtod\<close> converts: a sign, the
  digits as a number and the exponent of ten (of two for a hexadecimal text), or an
  infinity or a NaN. Rounding that value to binary64 is not part of the model.
\<close>

datatype double =
    Dec bool nat int   \<comment> \<open>negative, digits, exponent: \<open>\<plusminus> digits * 10 ^ exponent\<close>\<close>
  | Hex bool nat int   \<comment> \<open>negative, digits, exponent: \<open>\<plusminus> digits * 2 ^ exponent\<close>\<close>
  | Infinity bool
  | NaN bool

definition scan_mantissa :: "(char \<Rightarrow> bool) \<Rightarrow> string \<Rightarrow> string \<times> string \<times> nat" where
  \<comment> \<open>digits, optionally a point and more digits: both digit strings and the length read\<close>
  "scan_mantissa dig s =
     (let ip = takeWhile dig s in
      case dropWhile dig s of
        [] \<Rightarrow> (ip, [], length ip)
      | c # r \<Rightarrow>
          if c = CHR ''.'' then (ip, takeWhile dig r, length ip + 1 + length (takeWhile dig r))
          else (ip, [], length ip))"

definition scan_exp :: "string \<Rightarrow> string \<Rightarrow> int \<times> nat" where
  \<comment> \<open>an exponent part: its letter, an optional sign and at least one decimal digit\<close>
  "scan_exp letters s =
     (case s of
        [] \<Rightarrow> (0, 0)
      | c # r \<Rightarrow>
          (let ds = takeWhile isdigit (drop (sign_len r) r) in
           if c \<in> set letters \<and> ds \<noteq> []
           then (if is_neg r then - int (digits_val 10 ds) else int (digits_val 10 ds),
                 1 + sign_len r + length ds)
           else (0, 0)))"

definition tolower :: "char \<Rightarrow> char" where
  "tolower c =
     (case map_of (zip ''ABCDEFGHIJKLMNOPQRSTUVWXYZ'' ''abcdefghijklmnopqrstuvwxyz'') c of
        None \<Rightarrow> c
      | Some l \<Rightarrow> l)"

definition starts_ci :: "string \<Rightarrow> string \<Rightarrow> bool" where
  \<comment> \<open>the text starts with the (lower-case) word, ignoring case\<close>
  "starts_ci w s = (map tolower (take (length w) s) = w)"

definition isnchar :: "char \<Rightarrow> bool" where
  \<comment> \<open>a character of an n-char-sequence: a digit, a letter or an underscore\<close>
  "isnchar c = (isdigit c \<or> tolower c \<in> set ''abcdefghijklmnopqrstuvwxyz_'')"

definition nan_seq :: "string \<Rightarrow> nat" where
  \<comment> \<open>the optional \<open>(n-char-sequence)\<close> after \<open>NAN\<close>: its length, 0 when it is not closed\<close>
  "nan_seq s =
     (case s of
        [] \<Rightarrow> 0
      | c # r \<Rightarrow>
          if c = CHR ''('' \<and> take 1 (dropWhile isnchar r) = '')''
          then length (takeWhile isnchar r) + 2 else 0)"

definition scan_hex :: "bool \<Rightarrow> string \<Rightarrow> (double \<times> nat) option" where
  \<comment> \<open>\<open>0x\<close> or \<open>0X\<close>, hexadecimal digits with an optional point, an optional binary exponent\<close>
  "scan_hex neg s =
     (let (hi, hf, hk) = scan_mantissa isxdigit (drop 2 s);
          (ex, ek) = scan_exp ''pP'' (drop (2 + hk) s)
      in if starts_ci ''0x'' s \<and> hi @ hf \<noteq> []
         then Some (Hex neg (digits_val 16 (hi @ hf)) (ex - 4 * int (length hf)), 2 + hk + ek)
         else None)"

definition scan_dec :: "bool \<Rightarrow> string \<Rightarrow> (double \<times> nat) option" where
  \<comment> \<open>decimal digits with an optional point, an optional decimal exponent\<close>
  "scan_dec neg s =
     (let (di, df, dk) = scan_mantissa isdigit s;
          (ex, ek) = scan_exp ''eE'' (drop dk s)
      in if di @ df \<noteq> []
         then Some (Dec neg (digits_val 10 (di @ df)) (ex - int (length df)), dk + ek)
         else None)"

definition scan_inf :: "bool \<Rightarrow> string \<Rightarrow> (double \<times> nat) option" where
  "scan_inf neg s =
     (if starts_ci ''infinity'' s then Some (Infinity neg, 8)
      else if starts_ci ''inf'' s then Some (Infinity neg, 3)
      else None)"

definition scan_nan :: "bool \<Rightarrow> string \<Rightarrow> (double \<times> nat) option" where
  "scan_nan neg s = (if starts_ci ''nan'' s then Some (NaN neg, 3 + nan_seq (drop 3 s)) else None)"

definition scan_float :: "bool \<Rightarrow> string \<Rightarrow> (double \<times> nat) option" where
  \<comment> \<open>the subject sequence after the sign: hexadecimal, decimal, infinity or NaN\<close>
  "scan_float neg s =
     (case scan_hex neg s of
        Some r \<Rightarrow> Some r
      | None \<Rightarrow>
          (case scan_dec neg s of
             Some r \<Rightarrow> Some r
           | None \<Rightarrow> (case scan_inf neg s of Some r \<Rightarrow> Some r | None \<Rightarrow> scan_nan neg s)))"

definition strtod :: "string \<Rightarrow> double \<times> nat" where
  "strtod nptr =
     (let ws = takeWhile isspace nptr;
          s1 = dropWhile isspace nptr
      in case scan_float (is_neg s1) (drop (sign_len s1) s1) of
           None \<Rightarrow> (Dec False 0 0, 0)
         | Some (v, k) \<Rightarrow> (v, length ws + sign_len s1 + k))"

subsection \<open>TryParse\<close>

definition TryParse_with :: "(string \<Rightarrow> 'a \<times> nat) \<Rightarrow> string_view \<Rightarrow> 'a option" where
  \<comment> \<open>lines 155-158 and 203-205: the conversion reads the C string at \<open>data()\<close> and sets
      \<open>e\<close> behind what it consumed; the result is \<open>nullopt\<close> when \<open>e == _str.data()\<close>.
      The C library defines no conversion of a null pointer: for \<open>NullView\<close> the model
      reads the empty text, and no statement below rests on it.\<close>
  "TryParse_with conv str = (let (r, e) = conv (sv_data str) in if e = 0 then None else Some r)"

definition narrow :: "(string \<Rightarrow> 64 word \<times> nat) \<Rightarrow> string \<Rightarrow> 'a::len word \<times> nat" where
  \<comment> \<open>\<open>static_cast<T>\<close> of the \<open>long\<close> or \<open>unsigned long\<close> a conversion returned\<close>
  "narrow conv s = (let (r, e) = conv s in (ucast r, e))"

definition TryParse_int :: "string_view \<Rightarrow> 32 word option" where
  "TryParse_int = TryParse_with (narrow strtol)"

definition TryParse_short :: "string_view \<Rightarrow> 16 word option" where
  "TryParse_short = TryParse_with (narrow strtol)"

definition TryParse_long :: "string_view \<Rightarrow> 64 word option" where
  "TryParse_long = TryParse_with strtol"

definition TryParse_long_long :: "string_view \<Rightarrow> 64 word option" where
  \<comment> \<open>\<open>strtoll\<close>: on LP64 the same conversion as \<open>strtol\<close>\<close>
  "TryParse_long_long = TryParse_with strtol"

definition TryParse_unsigned_int :: "string_view \<Rightarrow> 32 word option" where
  "TryParse_unsigned_int = TryParse_with (narrow strtoul)"

definition TryParse_unsigned_short :: "string_view \<Rightarrow> 16 word option" where
  "TryParse_unsigned_short = TryParse_with (narrow strtoul)"

definition TryParse_unsigned_long :: "string_view \<Rightarrow> 64 word option" where
  "TryParse_unsigned_long = TryParse_with strtoul"

definition TryParse_unsigned_long_long :: "string_view \<Rightarrow> 64 word option" where
  \<comment> \<open>\<open>strtoull\<close>: on LP64 the same conversion as \<open>strtoul\<close>\<close>
  "TryParse_unsigned_long_long = TryParse_with strtoul"

definition TryParse_size_t :: "string_view \<Rightarrow> 64 word option" where
  \<comment> \<open>\<open>size_t\<close> is \<open>unsigned long\<close>\<close>
  "TryParse_size_t = TryParse_unsigned_long"

definition TryParse_double :: "string_view \<Rightarrow> double option" where
  \<comment> \<open>also \<open>float\<close> (\<open>strtof\<close>) and \<open>long double\<close> (\<open>strtold\<close>), which read the same texts\<close>
  "TryParse_double = TryParse_with strtod"

definition TryParse_char :: "string_view \<Rightarrow> char option" where
  \<comment> \<open>lines 157, 173-186 and 203-205: \<open>e\<close> starts as \<open>nullptr\<close> (\<open>None\<close>) and becomes
      \<open>data()\<close> for an empty view; \<open>r\<close> is the first character otherwise\<close>
  "TryParse_char str =
     (let r = buffer str ! offset str;
          e = (if size_sv str \<noteq> 0 then None else data_ptr str)
      in if e = data_ptr str then None else Some r)"

definition TryParse_bool :: "string_view \<Rightarrow> bool option" where
  \<comment> \<open>lines 157, 187-189 and 203-205: \<open>e\<close> stays \<open>nullptr\<close> (\<open>None\<close>), so the result is
      \<open>nullopt\<close> exactly for a view whose \<open>data()\<close> is \<open>nullptr\<close>\<close>
  "TryParse_bool str =
     (let r = (sv_str str = ''true'' \<or> sv_str str = ''True'' \<or> sv_str str = ''TRUE''
               \<or> sv_str str = ''T'' \<or> sv_str str = ''1'');
          e = None
      in if e = data_ptr str then None else Some r)"

definition TryParse_string :: "string_view \<Rightarrow> string option" where
  \<comment> \<open>lines 208-212: \<open>return std::string(_str)\<close>\<close>
  "TryParse_string str = Some (sv_str str)"

subsection \<open>The row types V1, V2 and V3\<close>

text \<open>
  Every member is a \<open>std::optional\<close>. A \<open>size_t\<close> member is initialised from
  \<open>TryParse<size_t>\<close>, a \<open>double\<close> member from \<open>TryParse<double>\<close>, and a \<open>std::string\<close>
  member directly from the view, which makes an engaged optional holding a copy of the
  viewed characters. The members carry their struct's name as a prefix, since \<open>id\<close> and
  \<open>hd\<close> are constants of HOL.
\<close>

record V1 =
  V1_id :: "64 word option"
  V1_tyc :: "string option"
  V1_gaia :: "64 word option"
  V1_hyg :: "64 word option"
  V1_hip :: "64 word option"
  V1_hd :: "64 word option"
  V1_hr :: "64 word option"
  V1_gl :: "string option"
  V1_bayer :: "string option"
  V1_flam :: "string option"
  V1_con :: "string option"
  V1_proper :: "string option"
  V1_ra :: "double option"
  V1_dec :: "double option"
  V1_pos_src :: "string option"
  V1_dist :: "double option"
  V1_x0 :: "double option"
  V1_y0 :: "double option"
  V1_z0 :: "double option"
  V1_dist_src :: "string option"
  V1_mag :: "double option"
  V1_absmag :: "double option"
  V1_mag_src :: "string option"

definition V1_ctor :: "string_view list \<Rightarrow> V1" where
  \<comment> \<open>the constructor, lines 256-280: \<open>_values[i]\<close> is \<open>values ! i\<close>\<close>
  "V1_ctor values =
     \<lparr>V1_id = TryParse_size_t (values ! 0),
      V1_tyc = Some (sv_str (values ! 1)),
      V1_gaia = TryParse_size_t (values ! 2),
      V1_hyg = TryParse_size_t (values ! 3),
      V1_hip = TryParse_size_t (values ! 4),
      V1_hd = TryParse_size_t (values ! 5),
      V1_hr = TryParse_size_t (values ! 6),
      V1_gl = Some (sv_str (values ! 7)),
      V1_bayer = Some (sv_str (values ! 8)),
      V1_flam = Some (sv_str (values ! 9)),
      V1_con = Some (sv_str (values ! 10)),
      V1_proper = Some (sv_str (values ! 11)),
      V1_ra = TryParse_double (values ! 12),
      V1_dec = TryParse_double (values ! 13),
      V1_pos_src = Some (sv_str (values ! 14)),
      V1_dist = TryParse_double (values ! 15),
      V1_x0 = TryParse_double (values ! 16),
      V1_y0 = TryParse_double (values ! 17),
      V1_z0 = TryParse_double (values ! 18),
      V1_dist_src = Some (sv_str (values ! 19)),
      V1_mag = TryParse_double (values ! 20),
      V1_absmag = TryParse_double (values ! 21),
      V1_mag_src = Some (sv_str (values ! 22))\<rparr>"

record V2 =
  V2_id :: "64 word option"
  V2_tyc :: "string option"
  V2_gaia :: "64 word option"
  V2_hyg :: "64 word option"
  V2_hip :: "64 word option"
  V2_hd :: "64 word option"
  V2_hr :: "64 word option"
  V2_gl :: "string option"
  V2_bayer :: "string option"
  V2_flam :: "string option"
  V2_con :: "string option"
  V2_proper :: "string option"
  V2_ra :: "double option"
  V2_dec :: "double option"
  V2_pos_src :: "string option"
  V2_dist :: "double option"
  V2_x0 :: "double option"
  V2_y0 :: "double option"
  V2_z0 :: "double option"
  V2_dist_src :: "string option"
  V2_mag :: "double option"
  V2_absmag :: "double option"
  V2_mag_src :: "string option"
  V2_rv :: "double option"
  V2_rv_src :: "string option"
  V2_pm_ra :: "double option"
  V2_pm_dec :: "double option"
  V2_pm_src :: "double option"
  V2_vx :: "double option"
  V2_vy :: "double option"
  V2_vz :: "double option"
  V2_spect :: "double option"
  V2_spect_src :: "string option"

definition V2_ctor :: "string_view list \<Rightarrow> V2" where
  \<comment> \<open>the constructor, lines 327-361: \<open>_values[i]\<close> is \<open>values ! i\<close>\<close>
  "V2_ctor values =
     \<lparr>V2_id = TryParse_size_t (values ! 0),
      V2_tyc = Some (sv_str (values ! 1)),
      V2_gaia = TryParse_size_t (values ! 2),
      V2_hyg = TryParse_size_t (values ! 3),
      V2_hip = TryParse_size_t (values ! 4),
      V2_hd = TryParse_size_t (values ! 5),
      V2_hr = TryParse_size_t (values ! 6),
      V2_gl = Some (sv_str (values ! 7)),
      V2_bayer = Some (sv_str (values ! 8)),
      V2_flam = Some (sv_str (values ! 9)),
      V2_con = Some (sv_str (values ! 10)),
      V2_proper = Some (sv_str (values ! 11)),
      V2_ra = TryParse_double (values ! 12),
      V2_dec = TryParse_double (values ! 13),
      V2_pos_src = Some (sv_str (values ! 14)),
      V2_dist = TryParse_double (values ! 15),
      V2_x0 = TryParse_double (values ! 16),
      V2_y0 = TryParse_double (values ! 17),
      V2_z0 = TryParse_double (values ! 18),
      V2_dist_src = Some (sv_str (values ! 19)),
      V2_mag = TryParse_double (values ! 20),
      V2_absmag = TryParse_double (values ! 21),
      V2_mag_src = Some (sv_str (values ! 22)),
      V2_rv = TryParse_double (values ! 23),
      V2_rv_src = Some (sv_str (values ! 24)),
      V2_pm_ra = TryParse_double (values ! 25),
      V2_pm_dec = TryParse_double (values ! 26),
      V2_pm_src = TryParse_double (values ! 27),
      V2_vx = TryParse_double (values ! 28),
      V2_vy = TryParse_double (values ! 29),
      V2_vz = TryParse_double (values ! 30),
      V2_spect = TryParse_double (values ! 31),
      V2_spect_src = Some (sv_str (values ! 32))\<rparr>"

record V3 =
  V3_id :: "64 word option"
  V3_tyc :: "string option"
  V3_gaia :: "64 word option"
  V3_hyg :: "64 word option"
  V3_hip :: "64 word option"
  V3_hd :: "64 word option"
  V3_hr :: "64 word option"
  V3_gl :: "string option"
  V3_bayer :: "string option"
  V3_flam :: "string option"
  V3_con :: "string option"
  V3_proper :: "string option"
  V3_ra :: "double option"
  V3_dec :: "double option"
  V3_pos_src :: "string option"
  V3_dist :: "double option"
  V3_x0 :: "double option"
  V3_y0 :: "double option"
  V3_z0 :: "double option"
  V3_dist_src :: "string option"
  V3_mag :: "double option"
  V3_absmag :: "double option"
  V3_ci :: "double option"
  V3_mag_src :: "string option"
  V3_rv :: "double option"
  V3_rv_src :: "string option"
  V3_pm_ra :: "double option"
  V3_pm_dec :: "double option"
  V3_pm_src :: "double option"
  V3_vx :: "double option"
  V3_vy :: "double option"
  V3_vz :: "double option"
  V3_spect :: "double option"
  V3_spect_src :: "string option"

definition V3_ctor :: "string_view list \<Rightarrow> V3" where
  \<comment> \<open>the constructor, lines 409-444: \<open>_values[i]\<close> is \<open>values ! i\<close>\<close>
  "V3_ctor values =
     \<lparr>V3_id = TryParse_size_t (values ! 0),
      V3_tyc = Some (sv_str (values ! 1)),
      V3_gaia = TryParse_size_t (values ! 2),
      V3_hyg = TryParse_size_t (values ! 3),
      V3_hip = TryParse_size_t (values ! 4),
      V3_hd = TryParse_size_t (values ! 5),
      V3_hr = TryParse_size_t (values ! 6),
      V3_gl = Some (sv_str (values ! 7)),
      V3_bayer = Some (sv_str (values ! 8)),
      V3_flam = Some (sv_str (values ! 9)),
      V3_con = Some (sv_str (values ! 10)),
      V3_proper = Some (sv_str (values ! 11)),
      V3_ra = TryParse_double (values ! 12),
      V3_dec = TryParse_double (values ! 13),
      V3_pos_src = Some (sv_str (values ! 14)),
      V3_dist = TryParse_double (values ! 15),
      V3_x0 = TryParse_double (values ! 16),
      V3_y0 = TryParse_double (values ! 17),
      V3_z0 = TryParse_double (values ! 18),
      V3_dist_src = Some (sv_str (values ! 19)),
      V3_mag = TryParse_double (values ! 20),
      V3_absmag = TryParse_double (values ! 21),
      V3_ci = TryParse_double (values ! 22),
      V3_mag_src = Some (sv_str (values ! 23)),
      V3_rv = TryParse_double (values ! 24),
      V3_rv_src = Some (sv_str (values ! 25)),
      V3_pm_ra = TryParse_double (values ! 26),
      V3_pm_dec = TryParse_double (values ! 27),
      V3_pm_src = TryParse_double (values ! 28),
      V3_vx = TryParse_double (values ! 29),
      V3_vy = TryParse_double (values ! 30),
      V3_vz = TryParse_double (values ! 31),
      V3_spect = TryParse_double (values ! 32),
      V3_spect_src = Some (sv_str (values ! 33))\<rparr>"

subsection \<open>ToArray\<close>

definition ToArray :: "nat \<Rightarrow> 'a list \<Rightarrow> error + 'a list" where
  \<comment> \<open>lines 120-137, \<open>Nm\<close> being the template argument \<open>_Nm\<close>\<close>
  "ToArray Nm vector =
     (if length vector \<noteq> Nm then Inl ArraySizeMismatch
      else Inr (take (min (length vector) Nm) vector))"

subsection \<open>Files and streams\<close>

text \<open>
  The file system is what \<open>exists\<close> and \<open>fstream::open\<close> see of it: a path names nothing,
  or a file that cannot be opened for reading, or a file with its text. A
  \<open>std::stringstream\<close> is the text not yet read and the two state bits the code depends
  on. \<open>result << fs.rdbuf()\<close> sets \<open>failbit\<close> when it inserts no character.
\<close>

type_synonym path = string

datatype entry = Unopenable | Contents string

type_synonym filesystem = "path \<Rightarrow> entry option"

record stringstream =
  chars :: string
  eofbit :: bool
  failbit :: bool

definition path_exists :: "filesystem \<Rightarrow> path \<Rightarrow> bool" where
  "path_exists fs p = (fs p \<noteq> None)"

definition ReadAllText :: "filesystem \<Rightarrow> path \<Rightarrow> error + stringstream" where
  \<comment> \<open>lines 39-58\<close>
  "ReadAllText fs p =
     (if path_exists fs p then
        (case fs p of
           Some (Contents text) \<Rightarrow> Inr \<lparr>chars = text, eofbit = False, failbit = (text = [])\<rparr>
         | _ \<Rightarrow> Inr \<lparr>chars = [], eofbit = False, failbit = False\<rparr>)
      else Inl InvalidFilePath)"

definition getline :: "stringstream \<Rightarrow> string \<Rightarrow> bool \<times> stringstream \<times> string" where
  \<comment> \<open>\<open>std::getline(csv, line)\<close>: whether the stream is good afterwards, the stream and the
      line. A stream that is not good sets \<open>failbit\<close> and leaves the line alone; otherwise
      characters are taken up to a newline, which is removed and not stored, or up to the end
      (\<open>eofbit\<close>), and \<open>failbit\<close> is set when nothing was taken at all.\<close>
  "getline csv line =
     (if eofbit csv \<or> failbit csv then (False, csv\<lparr>failbit := True\<rparr>, line)
      else
        (let l = takeWhile (\<lambda>c. c \<noteq> CHR 0x0A) (chars csv) in
         case dropWhile (\<lambda>c. c \<noteq> CHR 0x0A) (chars csv) of
           [] \<Rightarrow> (l \<noteq> [], \<lparr>chars = [], eofbit = True, failbit = (l = [])\<rparr>, l)
         | c # r \<Rightarrow> (True, \<lparr>chars = r, eofbit = False, failbit = False\<rparr>, l)))"

subsection \<open>Load\<close>

text \<open>
  \<open>Load<T>\<close> is a template over the row type. The model takes the row type as a value of
  \<open>version\<close>; \<open>s_ElementCount\<close> and the constructor are selected by it, and a row of any
  of the three types is a \<open>star\<close>.
\<close>

datatype version = ATHYG_V1 | ATHYG_V2 | ATHYG_V3

datatype star = Star_V1 V1 | Star_V2 V2 | Star_V3 V3

fun s_ElementCount :: "version \<Rightarrow> nat" where
  "s_ElementCount ATHYG_V1 = 23"
| "s_ElementCount ATHYG_V2 = 33"
| "s_ElementCount ATHYG_V3 = 34"

fun construct :: "version \<Rightarrow> string_view list \<Rightarrow> star" where
  "construct ATHYG_V1 values = Star_V1 (V1_ctor values)"
| "construct ATHYG_V2 values = Star_V2 (V2_ctor values)"
| "construct ATHYG_V3 values = Star_V3 (V3_ctor values)"

definition resize :: "nat \<Rightarrow> 'a list \<Rightarrow> 'a list" where
  \<comment> \<open>lines 491-493: \<open>elements.resize\<close>, called only to shorten\<close>
  "resize n elements = (if n < length elements then take n elements else elements)"

definition deserialise_line :: "version \<Rightarrow> string \<Rightarrow> error + star" where
  \<comment> \<open>the body of the inner loop, lines 488-503\<close>
  "deserialise_line T line =
     (let elements = resize (s_ElementCount T) (Split (to_view line) (CHR '','') (s_ElementCount T))
      in if length elements = s_ElementCount T then
           (case ToArray (s_ElementCount T) elements of
              Inl err \<Rightarrow> Inl err
            | Inr values \<Rightarrow> Inr (construct T values))
         else Inl ElementCountMismatch)"

function Load_lines :: "version \<Rightarrow> stringstream \<Rightarrow> string \<Rightarrow> star list \<Rightarrow> error + star list" where
  \<comment> \<open>the inner loop, lines 486-504\<close>
  "Load_lines T csv line result =
     (case getline csv line of
        (good, csv', line') \<Rightarrow>
          if good then
            (case deserialise_line T line' of
               Inl err \<Rightarrow> Inl err
             | Inr s \<Rightarrow> Load_lines T csv' line' (result @ [s]))
          else Inr result)"
  by pat_completeness auto

lemma getline_good:
  assumes "getline csv line = (True, csv', line')"
  shows "\<not> eofbit csv" and "\<not> failbit csv"
  using assms by (simp_all add: getline_def split: if_splits)

lemma getline_consumes:
  assumes "getline csv line = (True, csv', line')"
  shows "length (chars csv') < length (chars csv)"
proof -
  let ?nl = "\<lambda>c. c \<noteq> CHR 0x0A"
  let ?l = "takeWhile ?nl (chars csv)"
  have len: "length ?l + length (dropWhile ?nl (chars csv)) = length (chars csv)"
    by (metis length_append takeWhile_dropWhile_id)
  note good = getline_good [OF assms]
  show ?thesis
  proof (cases "dropWhile ?nl (chars csv)")
    case Nil
    have "getline csv line = (?l \<noteq> [], \<lparr>chars = [], eofbit = True, failbit = (?l = [])\<rparr>, ?l)"
      using good by (simp add: getline_def Nil Let_def)
    with assms have "?l \<noteq> []" and "chars csv' = []" by auto
    then show ?thesis by (cases "chars csv") auto
  next
    case (Cons c r)
    have "getline csv line = (True, \<lparr>chars = r, eofbit = False, failbit = False\<rparr>, ?l)"
      using good by (simp add: getline_def Cons Let_def)
    with assms have "chars csv' = r" by auto
    then show ?thesis using len Cons by simp
  qed
qed

lemma getline_consumes_sym:
  "(True, y) = getline csv line \<Longrightarrow> (csv', line') = y \<Longrightarrow> length (chars csv') < length (chars csv)"
  using getline_consumes [of csv line csv' line'] by simp

termination Load_lines
  by (relation "measure (\<lambda>(T, csv, line, result). length (chars csv))")
     (auto intro: getline_consumes_sym)

declare Load_lines.simps [simp del]

fun Load_paths :: "version \<Rightarrow> filesystem \<Rightarrow> path list \<Rightarrow> star list \<Rightarrow> error + star list" where
  \<comment> \<open>the loop over the paths, lines 472-511; the console output is left out\<close>
  "Load_paths T fs [] result = Inr result"
| "Load_paths T fs (p # paths) result =
     (if path_exists fs p then
        (case ReadAllText fs p of
           Inl err \<Rightarrow> Inl err
         | Inr csv \<Rightarrow>
             (case getline csv [] of
                (good, csv', line) \<Rightarrow>
                  (case Load_lines T csv' line result of
                     Inl err \<Rightarrow> Inl err
                   | Inr result' \<Rightarrow> Load_paths T fs paths result')))
      else Inl PathNotValid)"

definition Load :: "version \<Rightarrow> filesystem \<Rightarrow> path list \<Rightarrow> error + star list" where
  \<comment> \<open>lines 463-514\<close>
  "Load T fs athyg_paths = Load_paths T fs athyg_paths []"

subsection \<open>Notions used in the statements\<close>

text \<open>
  \<open>split_fields\<close> cuts a text at every delimiter, \<open>join\<close> puts the delimiter back between
  consecutive fields, and \<open>token_of\<close> says where a view lies in the line it was cut from:
  it points into the line and ends at the end of the line or right before a delimiter.

  The lines of a file are its newline-separated fields, without the last one when that is
  empty (a text that ends in a newline has no further line); the data lines are all but
  the first. \<open>deserialise_all\<close> and \<open>load_all\<close> give the rows of a list of lines and of a
  list of paths as plain recursions, which \<open>Load\<close> is proved to compute.
\<close>

primrec split_fields :: "char \<Rightarrow> string \<Rightarrow> string list" where
  "split_fields d [] = [[]]"
| "split_fields d (c # cs) =
     (if c = d then [] # split_fields d cs
      else (case split_fields d cs of [] \<Rightarrow> [[c]] | f # fs \<Rightarrow> (c # f) # fs))"

primrec join :: "char \<Rightarrow> string list \<Rightarrow> string" where
  "join d [] = []"
| "join d (t # ts) = (if ts = [] then t else t @ d # join d ts)"

definition token_of :: "string \<Rightarrow> char \<Rightarrow> string_view \<Rightarrow> bool" where
  "token_of line d t =
     (is_View t \<and> buffer t = line \<and> offset t + size_sv t \<le> length line
      \<and> (offset t + size_sv t = length line \<or> line ! (offset t + size_sv t) = d))"

definition file_lines :: "string \<Rightarrow> string list" where
  "file_lines text =
     (let fs = split_fields (CHR 0x0A) text in if last fs = [] then butlast fs else fs)"

definition data_lines :: "string \<Rightarrow> string list" where
  "data_lines text = tl (file_lines text)"

definition stream_lines :: "stringstream \<Rightarrow> string list" where
  "stream_lines csv = (if eofbit csv \<or> failbit csv then [] else file_lines (chars csv))"

primrec deserialise_all :: "version \<Rightarrow> string list \<Rightarrow> error + star list" where
  "deserialise_all T [] = Inr []"
| "deserialise_all T (l # ls) =
     (case deserialise_line T l of
        Inl err \<Rightarrow> Inl err
      | Inr s \<Rightarrow> map_sum (\<lambda>e. e) ((#) s) (deserialise_all T ls))"

definition file_text :: "entry \<Rightarrow> string" where
  "file_text en = (case en of Contents text \<Rightarrow> text | Unopenable \<Rightarrow> [])"

primrec load_all :: "version \<Rightarrow> filesystem \<Rightarrow> path list \<Rightarrow> error + star list" where
  "load_all T fs [] = Inr []"
| "load_all T fs (p # ps) =
     (case fs p of
        None \<Rightarrow> Inl PathNotValid
      | Some en \<Rightarrow>
          (case deserialise_all T (data_lines (file_text en)) of
             Inl err \<Rightarrow> Inl err
           | Inr rs \<Rightarrow> map_sum (\<lambda>e. e) ((@) rs) (load_all T fs ps)))"

definition row :: "version \<Rightarrow> string \<Rightarrow> star" where
  "row T line =
     construct T (take (s_ElementCount T) (Split (to_view line) (CHR '','') (s_ElementCount T)))"

definition path_lines :: "filesystem \<Rightarrow> path \<Rightarrow> string list" where
  "path_lines fs p = (case fs p of None \<Rightarrow> [] | Some en \<Rightarrow> data_lines (file_text en))"

definition short_line :: "version \<Rightarrow> string \<Rightarrow> bool" where
  "short_line T line = (count_list line (CHR '','') + 1 < s_ElementCount T)"

text \<open>
  The members of a row that are strings, in the order of their declaration, and the
  positions of the columns they are initialised from.
\<close>

fun text_fields :: "star \<Rightarrow> string option list" where
  "text_fields (Star_V1 r) =
     [V1_tyc r, V1_gl r, V1_bayer r, V1_flam r, V1_con r, V1_proper r, V1_pos_src r,
      V1_dist_src r, V1_mag_src r]"
| "text_fields (Star_V2 r) =
     [V2_tyc r, V2_gl r, V2_bayer r, V2_flam r, V2_con r, V2_proper r, V2_pos_src r,
      V2_dist_src r, V2_mag_src r, V2_rv_src r, V2_spect_src r]"
| "text_fields (Star_V3 r) =
     [V3_tyc r, V3_gl r, V3_bayer r, V3_flam r, V3_con r, V3_proper r, V3_pos_src r,
      V3_dist_src r, V3_mag_src r, V3_rv_src r, V3_spect_src r]"

fun text_columns :: "version \<Rightarrow> nat list" where
  "text_columns ATHYG_V1 = [1, 7, 8, 9, 10, 11, 14, 19, 22]"
| "text_columns ATHYG_V2 = [1, 7, 8, 9, 10, 11, 14, 19, 22, 24, 32]"
| "text_columns ATHYG_V3 = [1, 7, 8, 9, 10, 11, 14, 19, 23, 25, 33]"

subsection \<open>An example file system\<close>

text \<open>
  Two well-formed files for V1 (23 columns), a file whose only data line is too short, a
  file that is only a header, a file that exists and cannot be opened, a file with one
  data line whose third field is the text \<open>abc\<close>, and no other path.
\<close>

definition fs_example :: filesystem where
  "fs_example p =
     (if p = ''a.csv'' then Some (Contents ''id,tyc\<newline>1,t1,,,,,,,,,,,,,,,,,,,,,m1\<newline>2,t2,,,,,,,,,,,,,,,,,,,,,m2'')
      else if p = ''b.csv'' then Some (Contents ''id,tyc\<newline>3,t3,,,,,,,,,,,,,,,,,,,,,m3\<newline>'')
      else if p = ''short.csv'' then Some (Contents ''id,tyc\<newline>x'')
      else if p = ''header.csv'' then Some (Contents ''id,tyc\<newline>'')
      else if p = ''locked.csv'' then Some Unopenable
      else if p = ''sirius.csv'' then Some (Contents ''id,tyc,gaia\<newline>1,1-2-3,abc,4,5,6,7,Gl 1,Alp,21,And,Sirius,6.5,-16.7,HIP,2.6,1,2,3,HIP,-1.44,1.45,HIP\<newline>'')
      else None)"

section \<open>Properties\<close>

subsection \<open>Split\<close>

lemma split_fields_not_Nil: "split_fields d s \<noteq> []"
  by (induction s) (auto split: list.splits)

lemma length_split_fields: "length (split_fields d s) = count_list s d + 1"
  by (induction s) (auto simp: split_fields_not_Nil split: list.splits)

lemma split_fields_no_delimiter: "f \<in> set (split_fields d s) \<Longrightarrow> d \<notin> set f"
proof (induction s arbitrary: f)
  case Nil
  then show ?case by simp
next
  case (Cons c cs)
  obtain g gs where g: "split_fields d cs = g # gs"
    using split_fields_not_Nil [of d cs] by (cases "split_fields d cs") auto
  with Cons show ?case by (auto split: if_splits)
qed

lemma join_split_fields: "join d (split_fields d s) = s"
proof (induction s)
  case Nil
  then show ?case by simp
next
  case (Cons c cs)
  obtain g gs where g: "split_fields d cs = g # gs"
    using split_fields_not_Nil [of d cs] by (cases "split_fields d cs") auto
  with Cons show ?case by (auto simp: split_fields_not_Nil)
qed

lemma split_fields_index_None: "index_of d s = None \<Longrightarrow> split_fields d s = [s]"
  by (induction s) (auto split: if_splits)

lemma split_fields_index_Some:
  "index_of d s = Some i \<Longrightarrow> split_fields d s = take i s # split_fields d (drop (Suc i) s)"
proof (induction s arbitrary: i)
  case Nil
  then show ?case by simp
next
  case (Cons c cs)
  show ?case
  proof (cases "c = d")
    case True
    with Cons.prems show ?thesis by simp
  next
    case False
    with Cons.prems obtain j where j: "index_of d cs = Some j" and i: "i = Suc j"
      by auto
    from Cons.IH [OF j] False show ?thesis by (simp add: i)
  qed
qed

lemma index_of_nth: "index_of d s = Some i \<Longrightarrow> s ! i = d"
  by (induction s arbitrary: i) (auto split: if_splits)

lemma sv_str_substr:
  "sv_str (substr v pos cnt) =
     (case cnt of None \<Rightarrow> drop pos (sv_str v) | Some n \<Rightarrow> take n (drop pos (sv_str v)))"
  by (cases v; cases cnt) (simp_all add: sv_str_def substr_def drop_take min.commute add.commute)

lemma Split_loop_fields:
  "map sv_str (Split_loop v d start acc) = map sv_str acc @ split_fields d (drop start (sv_str v))"
proof (induction v d start acc rule: Split_loop.induct)
  case (1 s d start result)
  show ?case
  proof (cases "find_sv s d start")
    case None
    then have "index_of d (drop start (sv_str s)) = None" by (simp add: find_sv_def)
    from split_fields_index_None [OF this] None show ?thesis
      by (subst Split_loop.simps) (simp add: sv_str_substr)
  next
    case (Some e)
    then obtain i where i: "index_of d (drop start (sv_str s)) = Some i" and e: "e = start + i"
      by (auto simp: find_sv_def)
    from split_fields_index_Some [OF i] "1.IH" [OF Some] Some show ?thesis
      by (subst Split_loop.simps) (simp add: sv_str_substr e add.commute)
  qed
qed

lemma Split_fields: "map sv_str (Split v d cap) = split_fields d (sv_str v)"
  by (simp add: Split_def Split_loop_fields)


lemma Split_loop_token_of:
  assumes "list_all (token_of line d) acc" and "start \<le> length line"
  shows "list_all (token_of line d) (Split_loop (to_view line) d start acc)"
  using assms
proof (induction "to_view line" d start acc rule: Split_loop.induct)
  case (1 d start result)
  have str: "sv_str (to_view line) = line" by (simp add: sv_str_def to_view_def)
  show ?case
  proof (cases "find_sv (to_view line) d start")
    case None
    have "token_of line d (substr (to_view line) start None)"
      using "1.prems"(2) by (simp add: token_of_def substr_def to_view_def)
    with None "1.prems"(1) show ?thesis
      by (subst Split_loop.simps) simp
  next
    case (Some e)
    then obtain i where i: "index_of d (drop start line) = Some i" and e: "e = start + i"
      by (auto simp: find_sv_def str)
    from find_sv_bounds [OF Some] have b: "start \<le> e" "e < length line"
      by (simp_all add: to_view_def)
    from index_of_nth [OF i] b have "line ! e = d" by (simp add: e)
    from b have "min (e - start) (length line - start) = e - start" by simp
    with b \<open>line ! e = d\<close> have "token_of line d (substr (to_view line) start (Some (e - start)))"
      by (simp add: token_of_def substr_def to_view_def)
    with "1.prems"(1) have "list_all (token_of line d) (result @ [substr (to_view line) start (Some (e - start))])"
      by simp
    from "1.hyps" [OF Some this] b Some show ?thesis
      by (subst Split_loop.simps) simp
  qed
qed

lemma Split_token_of: "t \<in> set (Split (to_view line) d cap) \<Longrightarrow> token_of line d t"
  using Split_loop_token_of [of line d "[]" 0] by (simp add: Split_def list_all_iff)

lemma token_of_data:
  assumes "token_of line d t"
  shows "\<exists>rest. sv_data t = sv_str t @ rest \<and> (rest = [] \<or> hd rest = d)"
proof -
  let ?rest = "drop (offset t + size_sv t) line"
  from assms have buf: "buffer t = line" and le: "offset t + size_sv t \<le> length line"
    and nx: "offset t + size_sv t = length line \<or> line ! (offset t + size_sv t) = d"
    by (simp_all add: token_of_def)
  have "?rest = drop (size_sv t) (drop (offset t) line)"
    by (simp add: add.commute)
  then have "sv_data t = sv_str t @ ?rest"
    by (simp only: sv_data_def sv_str_def buf append_take_drop_id)
  moreover have "?rest = [] \<or> hd ?rest = d"
  proof (cases "offset t + size_sv t = length line")
    case True
    then show ?thesis by simp
  next
    case False
    with le have "offset t + size_sv t < length line" by simp
    with nx False show ?thesis by (simp add: hd_drop_conv_nth)
  qed
  ultimately show ?thesis by blast
qed


subsection \<open>Reading lines and files\<close>

lemma file_lines_Nil [simp]: "file_lines [] = []"
  by (simp add: file_lines_def)

lemma split_fields_no_nl:
  "d \<notin> set l \<Longrightarrow> split_fields d l = [l]"
  by (induction l) auto

lemma split_fields_append:
  "d \<notin> set l \<Longrightarrow> split_fields d (l @ d # r) = l # split_fields d r"
  by (induction l) auto

lemma file_lines_no_nl:
  "CHR 0x0A \<notin> set l \<Longrightarrow> l \<noteq> [] \<Longrightarrow> file_lines l = [l]"
  by (simp add: file_lines_def split_fields_no_nl)

lemma file_lines_append:
  "CHR 0x0A \<notin> set l \<Longrightarrow> file_lines (l @ CHR 0x0A # r) = l # file_lines r"
  by (simp add: file_lines_def split_fields_append split_fields_not_Nil Let_def)

lemma getline_not_good:
  "eofbit csv \<or> failbit csv \<or> chars csv = [] \<Longrightarrow> fst (getline csv line) = False"
  by (auto simp: getline_def)

lemma getline_line:
  assumes "\<not> eofbit csv" and "\<not> failbit csv" and "chars csv \<noteq> []"
  shows "\<exists>csv' l. getline csv line = (True, csv', l) \<and> file_lines (chars csv) = l # stream_lines csv'"
proof -
  let ?nl = "\<lambda>c. c \<noteq> CHR 0x0A"
  let ?l = "takeWhile ?nl (chars csv)"
  have nl: "CHR 0x0A \<notin> set ?l"
    by (auto dest: set_takeWhileD)
  show ?thesis
  proof (cases "dropWhile ?nl (chars csv)")
    case Nil
    then have eq: "?l = chars csv"
      by (metis append_Nil2 takeWhile_dropWhile_id)
    have g: "getline csv line = (True, \<lparr>chars = [], eofbit = True, failbit = False\<rparr>, ?l)"
      using assms by (simp add: getline_def Nil Let_def eq)
    have "file_lines (chars csv) = [chars csv]"
      using nl assms(3) by (simp add: eq file_lines_no_nl)
    with g show ?thesis by (simp add: stream_lines_def eq)
  next
    case (Cons c r)
    have "c = CHR 0x0A"
      using hd_dropWhile [of ?nl "chars csv"] Cons by simp
    with Cons have split: "chars csv = ?l @ CHR 0x0A # r"
      by (metis takeWhile_dropWhile_id)
    have g: "getline csv line = (True, \<lparr>chars = r, eofbit = False, failbit = False\<rparr>, ?l)"
      using assms by (simp add: getline_def Cons Let_def)
    have "file_lines (chars csv) = ?l # file_lines r"
      using file_lines_append [OF nl, of r] split by simp
    with g show ?thesis by (simp add: stream_lines_def)
  qed
qed

lemma file_lines_eq_Nil: "file_lines text = [] \<longleftrightarrow> text = []"
proof
  assume e: "file_lines text = []"
  show "text = []"
  proof (rule ccontr)
    assume "text \<noteq> []"
    from getline_line [of "\<lparr>chars = text, eofbit = False, failbit = False\<rparr>" "[]"] this e
    show False by simp
  qed
qed simp

lemma Load_lines_all:
  "Load_lines T csv line acc = map_sum (\<lambda>e. e) ((@) acc) (deserialise_all T (stream_lines csv))"
proof (induction T csv line acc rule: Load_lines.induct)
  case (1 T csv line result)
  show ?case
  proof (cases "eofbit csv \<or> failbit csv \<or> chars csv = []")
    case True
    then have "fst (getline csv line) = False" by (rule getline_not_good)
    then obtain csv' l where g: "getline csv line = (False, csv', l)"
      by (cases "getline csv line") auto
    from True have "stream_lines csv = []" by (auto simp: stream_lines_def)
    with g show ?thesis
      by (subst Load_lines.simps) simp
  next
    case False
    then obtain csv' l where g: "getline csv line = (True, csv', l)"
      and fl: "file_lines (chars csv) = l # stream_lines csv'"
      using getline_line [of csv line] by blast
    from False fl have sl: "stream_lines csv = l # stream_lines csv'"
      by (simp add: stream_lines_def)
    show ?thesis
    proof (cases "deserialise_line T l")
      case (Inl err)
      with g sl show ?thesis by (subst Load_lines.simps) simp
    next
      case (Inr s)
      from "1.IH" [of True "(csv', l)" csv' l s, OF g [symmetric] refl TrueI Inr] have
        "Load_lines T csv' l (result @ [s]) =
           map_sum (\<lambda>e. e) ((@) (result @ [s])) (deserialise_all T (stream_lines csv'))" .
      with g sl Inr show ?thesis
        by (subst Load_lines.simps) (cases "deserialise_all T (stream_lines csv')"; simp)
    qed
  qed
qed


lemma header_skipped:
  assumes "fs p = Some en"
  shows "\<exists>csv. ReadAllText fs p = Inr csv
           \<and> stream_lines (fst (snd (getline csv []))) = data_lines (file_text en)"
proof (cases "file_text en = []")
  case True
  let ?csv = "\<lparr>chars = [], eofbit = False, failbit = (\<exists>text. en = Contents text)\<rparr>"
  from True assms have r: "ReadAllText fs p = Inr ?csv"
    by (cases en) (simp_all add: ReadAllText_def path_exists_def file_text_def)
  have "stream_lines (fst (snd (getline ?csv []))) = []"
    by (simp add: getline_def stream_lines_def)
  with r True show ?thesis by (simp add: data_lines_def)
next
  case False
  then obtain body where en: "en = Contents body" and t: "body \<noteq> []"
    by (cases en) (simp_all add: file_text_def)
  let ?csv = "\<lparr>chars = body, eofbit = False, failbit = False\<rparr>"
  from en t assms have r: "ReadAllText fs p = Inr ?csv"
    by (simp add: ReadAllText_def path_exists_def)
  from getline_line [of ?csv "[]"] t obtain csv' l
    where "getline ?csv [] = (True, csv', l)" and "file_lines body = l # stream_lines csv'"
    by auto
  with r en show ?thesis by (simp add: data_lines_def file_text_def)
qed

lemma Load_paths_step:
  assumes "fs p = Some en"
  shows "Load_paths T fs (p # ps) acc =
           (case deserialise_all T (data_lines (file_text en)) of
              Inl err \<Rightarrow> Inl err
            | Inr rs \<Rightarrow> Load_paths T fs ps (acc @ rs))"
proof -
  from assms have "\<exists>csv. ReadAllText fs p = Inr csv
      \<and> stream_lines (fst (snd (getline csv []))) = data_lines (file_text en)"
    by (rule header_skipped)
  then obtain csv where r: "ReadAllText fs p = Inr csv"
    and d: "stream_lines (fst (snd (getline csv []))) = data_lines (file_text en)"
    by blast
  obtain good csv' line where g: "getline csv [] = (good, csv', line)"
    by (cases "getline csv []") auto
  with d have "stream_lines csv' = data_lines (file_text en)" by simp
  then have "Load_lines T csv' line acc
               = map_sum (\<lambda>e. e) ((@) acc) (deserialise_all T (data_lines (file_text en)))"
    by (simp add: Load_lines_all)
  with assms r g show ?thesis
    by (cases "deserialise_all T (data_lines (file_text en))") (simp_all add: path_exists_def)
qed

lemma Load_paths_all:
  "Load_paths T fs ps acc = map_sum (\<lambda>e. e) ((@) acc) (load_all T fs ps)"
proof (induction ps arbitrary: acc)
  case Nil
  then show ?case by simp
next
  case (Cons p ps)
  show ?case
  proof (cases "fs p")
    case None
    then show ?thesis by (simp add: path_exists_def)
  next
    case (Some en)
    then have step: "Load_paths T fs (p # ps) acc =
           (case deserialise_all T (data_lines (file_text en)) of
              Inl err \<Rightarrow> Inl err
            | Inr rs \<Rightarrow> Load_paths T fs ps (acc @ rs))"
      by (rule Load_paths_step)
    show ?thesis
    proof (cases "deserialise_all T (data_lines (file_text en))")
      case (Inl err)
      with Some show ?thesis by (simp add: step del: Load_paths.simps)
    next
      case (Inr rs)
      with Some Cons.IH [of "acc @ rs"] show ?thesis
        by (cases "load_all T fs ps") (simp_all add: step del: Load_paths.simps)
    qed
  qed
qed

lemma Load_all: "Load T fs ps = load_all T fs ps"
  by (cases "load_all T fs ps") (simp_all add: Load_def Load_paths_all)

subsection \<open>Rows, arity and the order of failures\<close>

lemma sv_str_to_view: "sv_str (to_view s) = s"
  by (simp add: sv_str_def to_view_def)

lemma length_Split: "length (Split (to_view line) d cap) = count_list line d + 1"
proof -
  have "length (Split (to_view line) d cap) = length (map sv_str (Split (to_view line) d cap))"
    by simp
  also have "\<dots> = count_list line d + 1"
    by (simp only: Split_fields length_split_fields sv_str_to_view)
  finally show ?thesis .
qed

lemma deserialise_line_eq:
  "deserialise_line T line = (if short_line T line then Inl ElementCountMismatch else Inr (row T line))"
  by (simp add: deserialise_line_def resize_def ToArray_def row_def short_line_def length_Split Let_def)

lemma deserialise_all_ok:
  "\<not> list_ex (short_line T) ls \<Longrightarrow> deserialise_all T ls = Inr (map (row T) ls)"
  by (induction ls) (simp_all add: deserialise_line_eq)

lemma deserialise_all_short:
  "list_ex (short_line T) ls \<Longrightarrow> deserialise_all T ls = Inl ElementCountMismatch"
proof (induction ls)
  case Nil
  then show ?case by simp
next
  case (Cons l ls)
  show ?case
  proof (cases "short_line T l")
    case True
    then show ?thesis by (simp add: deserialise_line_eq)
  next
    case False
    with Cons show ?thesis by (simp add: deserialise_line_eq)
  qed
qed

lemma load_all_step:
  "load_all T fs (p # ps) =
     (if fs p = None then Inl PathNotValid
      else if list_ex (short_line T) (path_lines fs p) then Inl ElementCountMismatch
      else map_sum (\<lambda>e. e) ((@) (map (row T) (path_lines fs p))) (load_all T fs ps))"
  by (cases "fs p")
     (auto simp: path_lines_def deserialise_all_short deserialise_all_ok)

lemma load_all_ok:
  assumes "\<forall>p \<in> set ps. fs p \<noteq> None \<and> \<not> list_ex (short_line T) (path_lines fs p)"
  shows "load_all T fs ps = Inr (concat (map (\<lambda>p. map (row T) (path_lines fs p)) ps))"
  using assms
proof (induction ps)
  case Nil
  then show ?case by simp
next
  case (Cons p ps)
  then show ?case by (simp add: load_all_step del: load_all.simps)
qed

lemma load_all_append:
  "load_all T fs (ps @ qs) =
     (case load_all T fs ps of
        Inl err \<Rightarrow> Inl err
      | Inr rs \<Rightarrow> map_sum (\<lambda>e. e) ((@) rs) (load_all T fs qs))"
proof (induction ps)
  case Nil
  show ?case by (cases "load_all T fs qs") simp_all
next
  case (Cons p ps)
  show ?case
  proof (cases "load_all T fs ps")
    case (Inl err)
    with Cons show ?thesis by (simp add: load_all_step del: load_all.simps)
  next
    case (Inr rs)
    with Cons show ?thesis
      by (cases "load_all T fs qs") (simp_all add: load_all_step del: load_all.simps)
  qed
qed

lemma load_all_fails:
  assumes "p \<in> set ps" and "fs p = None \<or> list_ex (short_line T) (path_lines fs p)"
  shows "\<exists>err. load_all T fs ps = Inl err"
  using assms
proof (induction ps)
  case Nil
  then show ?case by simp
next
  case (Cons q ps)
  show ?case
  proof (cases "q = p")
    case True
    with Cons.prems(2) show ?thesis by (auto simp: load_all_step simp del: load_all.simps)
  next
    case False
    with Cons obtain err where "load_all T fs ps = Inl err" by auto
    then show ?thesis by (simp add: load_all_step del: load_all.simps)
  qed
qed


lemma load_all_first_short:
  assumes "p \<in> set ps" and "list_ex (short_line T) (path_lines fs p)"
    and "\<forall>q \<in> set (takeWhile (\<lambda>q. q \<noteq> p) ps). fs q \<noteq> None"
  shows "load_all T fs ps = Inl ElementCountMismatch"
  using assms
proof (induction ps)
  case Nil
  then show ?case by simp
next
  case (Cons q ps)
  show ?case
  proof (cases "q = p")
    case True
    from Cons.prems(2) have "fs p \<noteq> None" by (cases "fs p") (simp_all add: path_lines_def)
    with True Cons.prems(2) show ?thesis by (simp add: load_all_step del: load_all.simps)
  next
    case False
    with Cons have "load_all T fs ps = Inl ElementCountMismatch" and "fs q \<noteq> None" by auto
    then show ?thesis by (simp add: load_all_step del: load_all.simps)
  qed
qed

lemma load_all_first_missing:
  assumes "p \<in> set ps" and "fs p = None"
    and "\<forall>q \<in> set (takeWhile (\<lambda>q. fs q \<noteq> None) ps). \<not> list_ex (short_line T) (path_lines fs q)"
  shows "load_all T fs ps = Inl PathNotValid"
  using assms
proof (induction ps)
  case Nil
  then show ?case by simp
next
  case (Cons q ps)
  show ?case
  proof (cases "fs q = None")
    case True
    then show ?thesis by (simp add: load_all_step del: load_all.simps)
  next
    case False
    with Cons.prems have "q \<noteq> p" and "\<not> list_ex (short_line T) (path_lines fs q)" by auto
    moreover from this Cons False have "load_all T fs ps = Inl PathNotValid" by auto
    ultimately show ?thesis using False by (simp add: load_all_step del: load_all.simps)
  qed
qed

lemma data_lines_header_only:
  assumes "CHR 0x0A \<notin> set hdr" and "body = [] \<or> body = hdr \<or> body = hdr @ [CHR 0x0A]"
  shows "data_lines body = []"
proof -
  have "data_lines hdr = []"
    using assms(1) by (cases "hdr = []") (simp_all add: data_lines_def file_lines_no_nl)
  moreover have "data_lines (hdr @ [CHR 0x0A]) = []"
    using file_lines_append [OF assms(1), of "[]"] by (simp add: data_lines_def)
  moreover have "data_lines [] = []" by (simp add: data_lines_def)
  ultimately show ?thesis using assms(2) by auto
qed

lemma load_all_errors:
  "load_all T fs ps = Inl err \<Longrightarrow> err = PathNotValid \<or> err = ElementCountMismatch"
proof (induction ps)
  case Nil
  then show ?case by simp
next
  case (Cons p ps)
  then show ?case
    by (cases "load_all T fs ps") (auto simp: load_all_step simp del: load_all.simps split: if_splits)
qed

lemma Load_errors:
  "Load T fs ps = Inl err \<Longrightarrow> err = PathNotValid \<or> err = ElementCountMismatch"
  by (simp only: Load_all load_all_errors)

subsection \<open>A token in its line\<close>

text \<open>
  The conversions read the C string at \<open>data()\<close>, which runs on past the token to the end
  of the line. A comma is no part of any number, so a conversion stops at the token's end
  and gives what it gives on the token's text alone.
\<close>

lemma sign_len_tail: "sign_len (s @ CHR '','' # r) = sign_len s"
  by (cases s) (simp_all add: sign_len_def)

lemma is_neg_tail: "is_neg (s @ CHR '','' # r) = is_neg s"
  by (cases s) (simp_all add: is_neg_def)

lemma sign_len_le: "sign_len s \<le> length s"
  by (cases s) (simp_all add: sign_len_def)

lemma signed_digits_tail:
  "takeWhile isdigit (drop (sign_len s) (s @ CHR '','' # r))
     = takeWhile isdigit (drop (sign_len s) s)"
proof -
  have "\<not> isdigit (CHR '','')" by (simp add: isdigit_def)
  then have "takeWhile isdigit (drop (sign_len s) s @ CHR '','' # r) = takeWhile isdigit (drop (sign_len s) s)"
    by (rule takeWhile_tail)
  then show ?thesis by (simp add: sign_len_le)
qed

lemma scan_int_tail: "scan_int (tok @ CHR '','' # r) = scan_int tok"
proof -
  have sp: "\<not> isspace (CHR '','')" by (simp add: isspace_def)
  have t: "takeWhile isspace (tok @ CHR '','' # r) = takeWhile isspace tok"
    using sp by (rule takeWhile_tail)
  have d: "dropWhile isspace (tok @ CHR '','' # r) = dropWhile isspace tok @ CHR '','' # r"
    using sp by (rule dropWhile_append3)
  show ?thesis
    unfolding scan_int_def Let_def t d sign_len_tail is_neg_tail signed_digits_tail ..
qed

lemma scan_mantissa_tail:
  assumes "\<not> dig (CHR '','')"
  shows "scan_mantissa dig (s @ CHR '','' # r) = scan_mantissa dig s"
proof -
  have t: "takeWhile dig (s @ CHR '','' # r) = takeWhile dig s"
    using assms by (rule takeWhile_tail)
  have d: "dropWhile dig (s @ CHR '','' # r) = dropWhile dig s @ CHR '','' # r"
    using assms by (rule dropWhile_append3)
  show ?thesis
  proof (cases "dropWhile dig s")
    case Nil
    have "dropWhile dig (s @ CHR '','' # r) = CHR '','' # r"
      unfolding d Nil by simp
    then show ?thesis
      unfolding scan_mantissa_def Let_def t Nil by simp
  next
    case (Cons c u)
    have u: "takeWhile dig (u @ CHR '','' # r) = takeWhile dig u"
      using assms by (rule takeWhile_tail)
    have "dropWhile dig (s @ CHR '','' # r) = c # (u @ CHR '','' # r)"
      unfolding d Cons by simp
    then show ?thesis
      unfolding scan_mantissa_def Let_def t Cons by (simp add: u)
  qed
qed

lemma scan_mantissa_len: "snd (snd (scan_mantissa dig s)) \<le> length s"
proof -
  have l: "length (takeWhile dig s) + length (dropWhile dig s) = length s"
    by (metis length_append takeWhile_dropWhile_id)
  show ?thesis
  proof (cases "dropWhile dig s")
    case Nil
    have "snd (snd (scan_mantissa dig s)) = length (takeWhile dig s)"
      unfolding scan_mantissa_def Let_def Nil by simp
    then show ?thesis using l by simp
  next
    case (Cons c u)
    have "length (takeWhile dig u) \<le> length u" by (rule length_takeWhile_le)
    moreover have "snd (snd (scan_mantissa dig s))
        \<le> length (takeWhile dig s) + 1 + length (takeWhile dig u)"
      unfolding scan_mantissa_def Let_def Cons by simp
    moreover from l have "length (takeWhile dig s) + 1 + length u = length s"
      unfolding Cons by simp
    ultimately show ?thesis by linarith
  qed
qed

lemma scan_exp_tail:
  assumes "CHR '','' \<notin> set letters"
  shows "scan_exp letters (s @ CHR '','' # r) = scan_exp letters s"
proof (cases s)
  case Nil
  with assms show ?thesis by (simp add: scan_exp_def)
next
  case (Cons c u)
  have "scan_exp letters (c # (u @ CHR '','' # r)) = scan_exp letters (c # u)"
    unfolding scan_exp_def list.case Let_def sign_len_tail is_neg_tail signed_digits_tail ..
  with Cons show ?thesis by simp
qed

lemma tolower_comma: "tolower c = CHR '','' \<longleftrightarrow> c = CHR '',''"
proof
  assume a: "tolower c = CHR '',''"
  show "c = CHR '',''"
  proof (cases "map_of (zip ''ABCDEFGHIJKLMNOPQRSTUVWXYZ'' ''abcdefghijklmnopqrstuvwxyz'') c")
    case None
    with a show ?thesis unfolding tolower_def by simp
  next
    case (Some l)
    with a have "l = CHR '',''" unfolding tolower_def by simp
    with map_of_SomeD [OF Some]
    have "(c, CHR '','') \<in> set (zip ''ABCDEFGHIJKLMNOPQRSTUVWXYZ'' ''abcdefghijklmnopqrstuvwxyz'')"
      by simp
    then show ?thesis by simp
  qed
next
  assume "c = CHR '',''"
  then show "tolower c = CHR '',''" by (simp add: tolower_def)
qed

lemma starts_ci_tail:
  assumes "CHR '','' \<notin> set w"
  shows "starts_ci w (s @ CHR '','' # r) = starts_ci w s"
proof (cases "length w \<le> length s")
  case True
  then show ?thesis by (simp add: starts_ci_def)
next
  case False
  then have "length (take (length w) s) < length w" by simp
  then have "map tolower (take (length w) s) \<noteq> w" by (metis length_map less_irrefl)
  moreover have "map tolower (take (length w) (s @ CHR '','' # r)) \<noteq> w"
  proof
    assume e: "map tolower (take (length w) (s @ CHR '','' # r)) = w"
    from False have "take (length w) (s @ CHR '','' # r) ! length s = CHR '',''"
      by (simp add: nth_append)
    moreover from False have "length s < length (take (length w) (s @ CHR '','' # r))" by simp
    ultimately have "map tolower (take (length w) (s @ CHR '','' # r)) ! length s = CHR '',''"
      by (simp add: tolower_comma del: take_append)
    with e False have "w ! length s = CHR '',''" and "length s < length w" by simp_all
    with assms show False by (metis nth_mem)
  qed
  ultimately show ?thesis by (simp add: starts_ci_def)
qed

lemma starts_ci_length: "starts_ci w s \<Longrightarrow> length w \<le> length s"
  by (metis starts_ci_def length_map length_take min.cobounded1 min_def nat_le_linear take_all)

lemma take1_tail: "take 1 (xs @ CHR '','' # r) = '')'' \<longleftrightarrow> take 1 xs = '')''"
  by (cases xs) simp_all

lemma nan_seq_tail: "nan_seq (s @ CHR '','' # r) = nan_seq s"
proof (cases s)
  case Nil
  then show ?thesis by (simp add: nan_seq_def)
next
  case (Cons c u)
  have "tolower (CHR '','') = CHR '',''" by (simp add: tolower_comma)
  then have n: "\<not> isnchar (CHR '','')" by (simp add: isnchar_def isdigit_def)
  have t: "takeWhile isnchar (u @ CHR '','' # r) = takeWhile isnchar u"
    using n by (rule takeWhile_tail)
  have d: "dropWhile isnchar (u @ CHR '','' # r) = dropWhile isnchar u @ CHR '','' # r"
    using n by (rule dropWhile_append3)
  have "nan_seq (c # (u @ CHR '','' # r)) = nan_seq (c # u)"
    unfolding nan_seq_def list.case t d take1_tail ..
  with Cons show ?thesis by simp
qed

lemma drop_tail: "n \<le> length s \<Longrightarrow> drop n (s @ CHR '','' # r) = drop n s @ CHR '','' # r"
  by simp

lemma scan_hex_tail: "scan_hex neg (s @ CHR '','' # r) = scan_hex neg s"
proof (cases "starts_ci ''0x'' s")
  case False
  have c: "starts_ci ''0x'' (s @ CHR '','' # r) = starts_ci ''0x'' s"
    by (rule starts_ci_tail) simp
  have n: "scan_hex neg x = None" if "\<not> starts_ci ''0x'' x" for x
  proof -
    obtain hi hf hk where h: "scan_mantissa isxdigit (drop 2 x) = (hi, hf, hk)"
      by (cases "scan_mantissa isxdigit (drop 2 x)") auto
    obtain ex ek where e: "scan_exp ''pP'' (drop (2 + hk) x) = (ex, ek)"
      by (cases "scan_exp ''pP'' (drop (2 + hk) x)") auto
    show ?thesis unfolding scan_hex_def h prod.case Let_def e using that by simp
  qed
  from False c show ?thesis by (simp only: n not_False_eq_True)
next
  case True
  have c: "starts_ci ''0x'' (s @ CHR '','' # r) = starts_ci ''0x'' s"
    by (rule starts_ci_tail) simp
  from starts_ci_length [OF True] have l2: "2 \<le> length s" by simp
  have nx: "\<not> isxdigit (CHR '','')" by (simp add: isxdigit_def)
  have d2: "drop 2 (s @ CHR '','' # r) = drop 2 s @ CHR '','' # r"
    using l2 by (rule drop_tail)
  have hm: "scan_mantissa isxdigit (drop 2 (s @ CHR '','' # r)) = scan_mantissa isxdigit (drop 2 s)"
    unfolding d2 using nx by (rule scan_mantissa_tail)
  obtain hi hf hk where h: "scan_mantissa isxdigit (drop 2 s) = (hi, hf, hk)"
    by (cases "scan_mantissa isxdigit (drop 2 s)") auto
  from scan_mantissa_len [of isxdigit "drop 2 s"] h l2 have "2 + hk \<le> length s" by simp
  then have dk: "drop (2 + hk) (s @ CHR '','' # r) = drop (2 + hk) s @ CHR '','' # r"
    by (rule drop_tail)
  have he: "scan_exp ''pP'' (drop (2 + hk) (s @ CHR '','' # r)) = scan_exp ''pP'' (drop (2 + hk) s)"
    unfolding dk by (rule scan_exp_tail) simp
  show ?thesis
    unfolding scan_hex_def hm h prod.case Let_def he c ..
qed

lemma scan_dec_tail: "scan_dec neg (s @ CHR '','' # r) = scan_dec neg s"
proof -
  have nd: "\<not> isdigit (CHR '','')" by (simp add: isdigit_def)
  have dm: "scan_mantissa isdigit (s @ CHR '','' # r) = scan_mantissa isdigit s"
    using nd by (rule scan_mantissa_tail)
  obtain di df dk where d: "scan_mantissa isdigit s = (di, df, dk)"
    by (cases "scan_mantissa isdigit s") auto
  from scan_mantissa_len [of isdigit s] d have "dk \<le> length s" by simp
  then have dd: "drop dk (s @ CHR '','' # r) = drop dk s @ CHR '','' # r"
    by (rule drop_tail)
  have de: "scan_exp ''eE'' (drop dk (s @ CHR '','' # r)) = scan_exp ''eE'' (drop dk s)"
    unfolding dd by (rule scan_exp_tail) simp
  show ?thesis
    unfolding scan_dec_def dm d prod.case Let_def de ..
qed

lemma scan_inf_tail: "scan_inf neg (s @ CHR '','' # r) = scan_inf neg s"
  by (simp add: scan_inf_def starts_ci_tail)

lemma scan_nan_tail: "scan_nan neg (s @ CHR '','' # r) = scan_nan neg s"
proof (cases "starts_ci ''nan'' s")
  case False
  then show ?thesis by (simp add: scan_nan_def starts_ci_tail)
next
  case True
  from starts_ci_length [OF True] have "3 \<le> length s" by simp
  then have "drop 3 (s @ CHR '','' # r) = drop 3 s @ CHR '','' # r" by (rule drop_tail)
  then have "nan_seq (drop 3 (s @ CHR '','' # r)) = nan_seq (drop 3 s)"
    by (simp only: nan_seq_tail)
  then show ?thesis by (simp add: scan_nan_def starts_ci_tail)
qed

lemma scan_float_tail: "scan_float neg (s @ CHR '','' # r) = scan_float neg s"
  by (simp only: scan_float_def scan_hex_tail scan_dec_tail scan_inf_tail scan_nan_tail)

lemma strtod_tail: "strtod (tok @ CHR '','' # r) = strtod tok"
proof -
  have sp: "\<not> isspace (CHR '','')" by (simp add: isspace_def)
  have t: "takeWhile isspace (tok @ CHR '','' # r) = takeWhile isspace tok"
    using sp by (rule takeWhile_tail)
  have d: "dropWhile isspace (tok @ CHR '','' # r) = dropWhile isspace tok @ CHR '','' # r"
    using sp by (rule dropWhile_append3)
  have x: "drop (sign_len s) (s @ CHR '','' # r) = drop (sign_len s) s @ CHR '','' # r" for s
    using sign_len_le by (rule drop_tail)
  show ?thesis
    unfolding strtod_def Let_def t d sign_len_tail is_neg_tail x scan_float_tail ..
qed

lemma strtoul_tail: "strtoul (tok @ CHR '','' # r) = strtoul tok"
  by (simp only: strtoul_def scan_int_tail)

lemma strtol_tail: "strtol (tok @ CHR '','' # r) = strtol tok"
  by (simp only: strtol_def scan_int_tail)

lemma token_of_tail:
  assumes "token_of line (CHR '','') t" and "\<And>tok r. conv (tok @ CHR '','' # r) = conv tok"
  shows "conv (sv_data t) = conv (sv_str t)"
proof -
  from token_of_data [OF assms(1)] obtain rest
    where d: "sv_data t = sv_str t @ rest" and r: "rest = [] \<or> hd rest = CHR '',''"
    by blast
  show ?thesis
  proof (cases rest)
    case Nil
    with d show ?thesis by simp
  next
    case (Cons c u)
    with r have "rest = CHR '','' # u" by simp
    with d assms(2) show ?thesis by simp
  qed
qed

lemma TryParse_with_token:
  assumes "t \<in> set (Split (to_view line) (CHR '','') n)"
    and "\<And>tok r. conv (tok @ CHR '','' # r) = conv tok"
  shows "TryParse_with conv t = TryParse_with conv (to_view (sv_str t))"
proof -
  from assms(1) have "token_of line (CHR '','') t" by (rule Split_token_of)
  from token_of_tail [OF this, of conv] assms(2) have "conv (sv_data t) = conv (sv_str t)" by blast
  moreover have "sv_data (to_view (sv_str t)) = sv_str t" by (simp add: sv_data_def to_view_def)
  ultimately show ?thesis by (simp add: TryParse_with_def)
qed

subsection \<open>What the conversions give on particular texts\<close>

lemma scan_int_minus:
  assumes "ds \<noteq> []" and "list_all isdigit ds"
  shows "scan_int (CHR ''-'' # ds) = Some (True, digits_val 10 ds, Suc (length ds))"
proof -
  have tw: "takeWhile isdigit ds = ds"
    using assms(2) by (simp add: takeWhile_eq_all_conv list_all_iff)
  have s1: "takeWhile isspace (CHR ''-'' # ds) = []" "dropWhile isspace (CHR ''-'' # ds) = CHR ''-'' # ds"
    by (simp_all add: isspace_def)
  have s2: "sign_len (CHR ''-'' # ds) = 1" "is_neg (CHR ''-'' # ds) = True"
    by (simp_all add: sign_len_def is_neg_def)
  have dr: "drop 1 (CHR ''-'' # ds) = ds" by simp
  show ?thesis
    unfolding scan_int_def Let_def s1 s2 dr tw using assms(1) by simp
qed

lemma strtoul_minus:
  assumes "ds \<noteq> []" and "list_all isdigit ds"
  shows "strtoul (CHR ''-'' # ds)
           = (if 2 ^ 64 - 1 < digits_val 10 ds then - 1 else word_of_int (- int (digits_val 10 ds)),
              Suc (length ds))"
  by (simp add: strtoul_def scan_int_minus [OF assms])

lemma narrow_word_of_int:
  "(ucast (word_of_int x :: 64 word) :: 32 word) = word_of_int x"
  "(ucast (word_of_int x :: 64 word) :: 16 word) = word_of_int x"
  by (simp_all add: ucast_down_wi is_down)

lemma narrow_minus_one:
  "(ucast (- 1 :: 64 word) :: 32 word) = - 1"
  "(ucast (- 1 :: 64 word) :: 16 word) = - 1"
  using narrow_word_of_int [of "- 1"] by simp_all

lemma sv_data_to_view: "sv_data (to_view s) = s"
  by (simp add: sv_data_def to_view_def)

lemma TryParse_token_text:
  assumes "t \<in> set (Split (to_view line) (CHR '','') n)"
    and "\<And>tok r. conv (tok @ CHR '','' # r) = conv tok"
  shows "TryParse_with conv t
           = (if snd (conv (sv_str t)) = 0 then None else Some (fst (conv (sv_str t))))"
proof -
  from assms(1) have "TryParse_with conv t = TryParse_with conv (to_view (sv_str t))"
    by (rule TryParse_with_token) (rule assms(2))
  then show ?thesis
    by (simp add: TryParse_with_def sv_data_to_view case_prod_beta)
qed

lemma narrow_tail:
  assumes "\<And>tok r. conv (tok @ CHR '','' # r) = conv tok"
  shows "narrow conv (tok @ CHR '','' # r) = narrow conv tok"
  by (simp add: narrow_def assms)

lemma Split_minus_one:
  "Split (to_view ''-1,x'') (CHR '','') 0 = [View ''-1,x'' 0 2, View ''-1,x'' 3 1]"
  by (simp add: Split_def Split_loop.simps find_sv_def sv_str_def substr_def to_view_def)

lemma Split_minus_big:
  "Split (to_view ''-18446744073709551616'') (CHR '','') 0 = [View ''-18446744073709551616'' 0 21]"
  by (simp add: Split_def Split_loop.simps find_sv_def sv_str_def substr_def to_view_def)

lemma digits_val_2_64: "digits_val 10 ''18446744073709551616'' = 18446744073709551616"
  by (simp add: digits_val_def digit_val_def isdigit_def)

lemma strtoul_Nil: "strtoul [] = (0, 0)"
  by (simp add: strtoul_def scan_int_def sign_len_def)

lemma scan_float_Nil: "scan_float neg [] = None"
  by (simp add: scan_float_def scan_hex_def scan_dec_def scan_inf_def scan_nan_def
      scan_mantissa_def scan_exp_def starts_ci_def)

lemma strtod_Nil: "strtod [] = (Dec False 0 0, 0)"
  by (simp add: strtod_def scan_float_Nil sign_len_def is_neg_def)

lemma no_start_scan:
  assumes "\<not> isspace c" and "c \<noteq> CHR ''+''" and "c \<noteq> CHR ''-''"
  shows "takeWhile isspace (c # cs) = []" and "dropWhile isspace (c # cs) = c # cs"
    and "sign_len (c # cs) = 0" and "is_neg (c # cs) = False"
  using assms by (simp_all add: sign_len_def is_neg_def)

lemma strtoul_no_start:
  assumes "\<not> isspace c" and "\<not> isdigit c" and "c \<noteq> CHR ''+''" and "c \<noteq> CHR ''-''"
  shows "strtoul (c # cs) = (0, 0)"
proof -
  have "scan_int (c # cs) = None"
    unfolding scan_int_def Let_def no_start_scan [OF assms(1,3,4)] using assms(2) by simp
  then show ?thesis by (simp add: strtoul_def)
qed

lemma tolower_cases:
  "tolower c = l \<Longrightarrow>
     c = l \<or> (c, l) \<in> set (zip ''ABCDEFGHIJKLMNOPQRSTUVWXYZ'' ''abcdefghijklmnopqrstuvwxyz'')"
proof (cases "map_of (zip ''ABCDEFGHIJKLMNOPQRSTUVWXYZ'' ''abcdefghijklmnopqrstuvwxyz'') c")
  case None
  assume "tolower c = l"
  with None show ?thesis unfolding tolower_def by simp
next
  case (Some x)
  assume "tolower c = l"
  with Some have "x = l" unfolding tolower_def by simp
  with map_of_SomeD [OF Some] show ?thesis by simp
qed

lemma starts_ci_Cons: "starts_ci (w # ws) (c # cs) \<Longrightarrow> tolower c = w"
  by (simp add: starts_ci_def)

lemma scan_float_no_start:
  assumes "\<not> isdigit c" and "c \<notin> set ''.iInN''"
  shows "scan_float neg (c # cs) = None"
proof -
  have d0: "c \<noteq> CHR ''0''" using assms(1) by (auto simp: isdigit_def)
  have w: "\<not> starts_ci ''0x'' (c # cs)" "\<not> starts_ci ''infinity'' (c # cs)"
    "\<not> starts_ci ''inf'' (c # cs)" "\<not> starts_ci ''nan'' (c # cs)"
    using assms(2) d0 by (auto dest!: starts_ci_Cons tolower_cases)
  have m: "scan_mantissa isdigit (c # cs) = ([], [], 0)"
    using assms by (simp add: scan_mantissa_def)
  obtain hi hf hk where h: "scan_mantissa isxdigit (drop 2 (c # cs)) = (hi, hf, hk)"
    by (cases "scan_mantissa isxdigit (drop 2 (c # cs))") auto
  obtain ex ek where e: "scan_exp ''pP'' (drop (2 + hk) (c # cs)) = (ex, ek)"
    by (cases "scan_exp ''pP'' (drop (2 + hk) (c # cs))") auto
  have "scan_hex neg (c # cs) = None"
    unfolding scan_hex_def h prod.case Let_def e using w(1) by simp
  moreover have "scan_dec neg (c # cs) = None"
    unfolding scan_dec_def m prod.case Let_def by (simp split: prod.splits)
  moreover have "scan_inf neg (c # cs) = None" "scan_nan neg (c # cs) = None"
    using w by (simp_all add: scan_inf_def scan_nan_def)
  ultimately show ?thesis by (simp add: scan_float_def)
qed

lemma strtod_no_start:
  assumes "\<not> isspace c" and "\<not> isdigit c" and "c \<noteq> CHR ''+''" and "c \<noteq> CHR ''-''"
    and "c \<notin> set ''.iInN''"
  shows "strtod (c # cs) = (Dec False 0 0, 0)"
  unfolding strtod_def Let_def no_start_scan [OF assms(1,3,4)]
  by (simp add: scan_float_no_start [OF assms(2,5)])

lemma strtoul_42xyz: "strtoul ''42xyz'' = (42, 2)"
  by (simp add: strtoul_def scan_int_def isspace_def isdigit_def sign_len_def is_neg_def
      digits_val_def digit_val_def)

lemma scan_float_42xyz: "scan_float False ''42xyz'' = Some (Dec False 42 0, 2)"
proof -
  have "scan_float False (CHR ''4'' # ''2xyz'') = scan_dec False (CHR ''4'' # ''2xyz'')"
  proof -
    have "\<not> starts_ci ''0x'' ''42xyz''" by (simp add: starts_ci_def tolower_def)
    moreover obtain hi hf hk where h: "scan_mantissa isxdigit (drop 2 ''42xyz'') = (hi, hf, hk)"
      by (cases "scan_mantissa isxdigit (drop 2 ''42xyz'')") auto
    moreover obtain ex ek where e: "scan_exp ''pP'' (drop (2 + hk) ''42xyz'') = (ex, ek)"
      by (cases "scan_exp ''pP'' (drop (2 + hk) ''42xyz'')") auto
    ultimately have "scan_hex False ''42xyz'' = None"
      unfolding scan_hex_def h prod.case Let_def e by simp
    moreover have "scan_dec False ''42xyz'' \<noteq> None"
      by (simp add: scan_dec_def scan_mantissa_def isdigit_def split: prod.splits)
    ultimately show ?thesis by (auto simp: scan_float_def)
  qed
  moreover have "scan_mantissa isdigit ''42xyz'' = (''42'', [], 2)"
    by (simp add: scan_mantissa_def isdigit_def)
  moreover have "scan_exp ''eE'' ''xyz'' = (0, 0)"
    by (simp add: scan_exp_def)
  moreover have "digits_val 10 ''42'' = 42"
    by (simp add: digits_val_def digit_val_def isdigit_def)
  ultimately show ?thesis by (simp add: scan_dec_def)
qed

lemma strtod_42xyz: "strtod ''42xyz'' = (Dec False 42 0, 2)"
  by (simp add: strtod_def scan_float_42xyz isspace_def sign_len_def is_neg_def)

lemma Split_42xyz:
  "Split (to_view ''42xyz,,abc'') (CHR '','') 0
     = [View ''42xyz,,abc'' 0 5, View ''42xyz,,abc'' 6 0, View ''42xyz,,abc'' 7 3]"
  by (simp add: Split_def Split_loop.simps find_sv_def sv_str_def substr_def to_view_def)

lemma scan_float_42: "scan_float False ''42'' = Some (Dec False 42 0, 2)"
proof -
  have "scan_float False ''42'' = scan_dec False ''42''"
  proof -
    have "\<not> starts_ci ''0x'' ''42''" by (simp add: starts_ci_def tolower_def)
    moreover obtain hi hf hk where h: "scan_mantissa isxdigit (drop 2 ''42'') = (hi, hf, hk)"
      by (cases "scan_mantissa isxdigit (drop 2 ''42'')") auto
    moreover obtain ex ek where e: "scan_exp ''pP'' (drop (2 + hk) ''42'') = (ex, ek)"
      by (cases "scan_exp ''pP'' (drop (2 + hk) ''42'')") auto
    ultimately have "scan_hex False ''42'' = None"
      unfolding scan_hex_def h prod.case Let_def e by simp
    moreover have "scan_dec False ''42'' \<noteq> None"
      by (simp add: scan_dec_def scan_mantissa_def isdigit_def split: prod.splits)
    ultimately show ?thesis by (auto simp: scan_float_def)
  qed
  moreover have "scan_mantissa isdigit ''42'' = (''42'', [], 2)"
    by (simp add: scan_mantissa_def isdigit_def)
  moreover have "scan_exp ''eE'' [] = (0, 0)"
    by (simp add: scan_exp_def)
  moreover have "digits_val 10 ''42'' = 42"
    by (simp add: digits_val_def digit_val_def isdigit_def)
  ultimately show ?thesis by (simp add: scan_dec_def)
qed

subsection \<open>The example file system\<close>

lemma data_lines_a: "data_lines ''id,tyc\<newline>1,t1,,,,,,,,,,,,,,,,,,,,,m1\<newline>2,t2,,,,,,,,,,,,,,,,,,,,,m2'' = [''1,t1,,,,,,,,,,,,,,,,,,,,,m1'', ''2,t2,,,,,,,,,,,,,,,,,,,,,m2'']"
  by (simp add: data_lines_def file_lines_def)

lemma data_lines_b: "data_lines ''id,tyc\<newline>3,t3,,,,,,,,,,,,,,,,,,,,,m3\<newline>'' = [''3,t3,,,,,,,,,,,,,,,,,,,,,m3'']"
  by (simp add: data_lines_def file_lines_def)

lemma data_lines_short: "data_lines ''id,tyc\<newline>x'' = [''x'']"
  by (simp add: data_lines_def file_lines_def)

lemma path_lines_example:
  "path_lines fs_example ''a.csv'' = [''1,t1,,,,,,,,,,,,,,,,,,,,,m1'', ''2,t2,,,,,,,,,,,,,,,,,,,,,m2'']"
  "path_lines fs_example ''b.csv'' = [''3,t3,,,,,,,,,,,,,,,,,,,,,m3'']"
  "path_lines fs_example ''short.csv'' = [''x'']"
  by (simp_all add: path_lines_def fs_example_def file_text_def data_lines_a data_lines_b data_lines_short)

text \<open>
  The row of a line with 23 fields of which the third is \<open>abc\<close>: \<open>gaia\<close> is absent and
  every other member holds what its column's kind makes of its token.
\<close>

lemmas strtod_eval = strtod_def scan_float_def scan_hex_def scan_dec_def scan_inf_def scan_nan_def
  scan_mantissa_def scan_exp_def starts_ci_def tolower_def isspace_def isdigit_def isxdigit_def
  sign_len_def is_neg_def digits_val_def digit_val_def nan_seq_def isnchar_def

lemma row_scenario:
  "row ATHYG_V1 ''1,1-2-3,abc,4,5,6,7,Gl 1,Alp,21,And,Sirius,6.5,-16.7,HIP,2.6,1,2,3,HIP,-1.44,1.45,HIP'' =
     Star_V1 \<lparr>V1_id = Some 1,
      V1_tyc = Some ''1-2-3'',
      V1_gaia = None,
      V1_hyg = Some 4,
      V1_hip = Some 5,
      V1_hd = Some 6,
      V1_hr = Some 7,
      V1_gl = Some ''Gl 1'',
      V1_bayer = Some ''Alp'',
      V1_flam = Some ''21'',
      V1_con = Some ''And'',
      V1_proper = Some ''Sirius'',
      V1_ra = Some (Dec False 65 (- 1)),
      V1_dec = Some (Dec True 167 (- 1)),
      V1_pos_src = Some ''HIP'',
      V1_dist = Some (Dec False 26 (- 1)),
      V1_x0 = Some (Dec False 1 0),
      V1_y0 = Some (Dec False 2 0),
      V1_z0 = Some (Dec False 3 0),
      V1_dist_src = Some ''HIP'',
      V1_mag = Some (Dec True 144 (- 2)),
      V1_absmag = Some (Dec False 145 (- 2)),
      V1_mag_src = Some ''HIP''\<rparr>"
  by (simp add: row_def Split_def Split_loop.simps find_sv_def sv_str_def substr_def to_view_def
      V1_ctor_def TryParse_size_t_def TryParse_unsigned_long_def TryParse_double_def
      TryParse_with_def sv_data_def strtoul_def scan_int_def strtod_eval)

lemma Load_scenario:
  "Load ATHYG_V1 fs_example [''sirius.csv''] = Inr [row ATHYG_V1 ''1,1-2-3,abc,4,5,6,7,Gl 1,Alp,21,And,Sirius,6.5,-16.7,HIP,2.6,1,2,3,HIP,-1.44,1.45,HIP'']"
proof -
  have "data_lines ''id,tyc,gaia\<newline>1,1-2-3,abc,4,5,6,7,Gl 1,Alp,21,And,Sirius,6.5,-16.7,HIP,2.6,1,2,3,HIP,-1.44,1.45,HIP\<newline>'' = [''1,1-2-3,abc,4,5,6,7,Gl 1,Alp,21,And,Sirius,6.5,-16.7,HIP,2.6,1,2,3,HIP,-1.44,1.45,HIP'']"
    by (simp add: data_lines_def file_lines_def)
  then have "path_lines fs_example ''sirius.csv'' = [''1,1-2-3,abc,4,5,6,7,Gl 1,Alp,21,And,Sirius,6.5,-16.7,HIP,2.6,1,2,3,HIP,-1.44,1.45,HIP'']"
    by (simp add: path_lines_def fs_example_def file_text_def)
  moreover have "fs_example ''sirius.csv'' \<noteq> None"
    by (simp add: fs_example_def)
  ultimately show ?thesis
    by (simp add: Load_all load_all_step short_line_def del: load_all.simps(2))
qed

text \<open>
  The row of a line with two fields more than V1 has columns: the fields \<open>x\<close> and \<open>y\<close>
  at its end leave no trace.
\<close>

lemma row_excess:
  "row ATHYG_V1 ''1,t,,,,,,,,,,,,,,,,,,,,,m,x,y'' =
     Star_V1 \<lparr>V1_id = Some 1,
      V1_tyc = Some ''t'',
      V1_gaia = None,
      V1_hyg = None,
      V1_hip = None,
      V1_hd = None,
      V1_hr = None,
      V1_gl = Some [],
      V1_bayer = Some [],
      V1_flam = Some [],
      V1_con = Some [],
      V1_proper = Some [],
      V1_ra = None,
      V1_dec = None,
      V1_pos_src = Some [],
      V1_dist = None,
      V1_x0 = None,
      V1_y0 = None,
      V1_z0 = None,
      V1_dist_src = Some [],
      V1_mag = None,
      V1_absmag = None,
      V1_mag_src = Some ''m''\<rparr>"
  by (simp add: row_def Split_def Split_loop.simps find_sv_def sv_str_def substr_def to_view_def
      V1_ctor_def TryParse_size_t_def TryParse_unsigned_long_def TryParse_double_def
      TryParse_with_def sv_data_def strtoul_def scan_int_def strtod_eval)

text \<open>
  A path that exists and cannot be opened gives an empty stream and no error, although
  the comment of \<open>ReadAllText\<close> (lines 32 and 37) promises an exception for it.
\<close>

lemma Load_unopenable: "Load T fs_example [''locked.csv''] = Inr []"
  by (simp add: Load_all path_lines_def fs_example_def file_text_def data_lines_def)


text \<open>
  The boolean and the character kind on the null view: \<open>e\<close> and \<open>data()\<close> are both
  \<open>nullptr\<close>, and the value is absent.
\<close>

lemma TryParse_bool_null: "TryParse_bool NullView = None"
  by (simp add: TryParse_bool_def data_ptr_def)

lemma TryParse_char_null: "TryParse_char NullView = None"
  by (simp add: TryParse_char_def data_ptr_def)

lemma TryParse_char_View:
  "TryParse_char (View b off n) = (if n = 0 then None else Some (b ! off))"
  by (simp add: TryParse_char_def data_ptr_def)

lemma Split_bools:
  "Split (to_view ''true,,T,yes'') (CHR '','') 0
     = [View ''true,,T,yes'' 0 4, View ''true,,T,yes'' 5 0, View ''true,,T,yes'' 6 1,
        View ''true,,T,yes'' 8 3]"
  by (simp add: Split_def Split_loop.simps find_sv_def sv_str_def substr_def to_view_def)

subsection \<open>The claims\<close>

text \<open>
  C1. For each of the three versions and every list of paths that name files whose data
  lines (the lines after the first) all have at least as many tokens as the version has
  columns, \<open>Load\<close> returns the rows of the files in the order of the list, each file's rows
  in the order of its lines, one row for every data line.
\<close>

theorem Load_well_formed:
  assumes "\<forall>p \<in> set paths. \<exists>body. fs p = Some (Contents body)
             \<and> (\<forall>l \<in> set (data_lines body). s_ElementCount T \<le> count_list l (CHR '','') + 1)"
  shows "Load T fs paths = Inr (concat (map (\<lambda>p. map (row T) (path_lines fs p)) paths))
         \<and> length (concat (map (\<lambda>p. map (row T) (path_lines fs p)) paths))
           = sum_list (map (\<lambda>p. length (path_lines fs p)) paths)"
proof
  have "\<forall>p \<in> set paths. fs p \<noteq> None \<and> \<not> list_ex (short_line T) (path_lines fs p)"
  proof
    fix p assume "p \<in> set paths"
    with assms obtain body where "fs p = Some (Contents body)"
      and "\<forall>l \<in> set (data_lines body). s_ElementCount T \<le> count_list l (CHR '','') + 1"
      by blast
    then show "fs p \<noteq> None \<and> \<not> list_ex (short_line T) (path_lines fs p)"
      by (auto simp: path_lines_def file_text_def list_ex_iff short_line_def)
  qed
  then show "Load T fs paths = Inr (concat (map (\<lambda>p. map (row T) (path_lines fs p)) paths))"
    by (simp only: Load_all load_all_ok)
  show "length (concat (map (\<lambda>p. map (row T) (path_lines fs p)) paths))
          = sum_list (map (\<lambda>p. length (path_lines fs p)) paths)"
    by (simp add: length_concat comp_def)
qed

theorem Load_well_formed_witness:
  "Load ATHYG_V1 fs_example [''a.csv'', ''b.csv'']
     = Inr [row ATHYG_V1 ''1,t1,,,,,,,,,,,,,,,,,,,,,m1'', row ATHYG_V1 ''2,t2,,,,,,,,,,,,,,,,,,,,,m2'', row ATHYG_V1 ''3,t3,,,,,,,,,,,,,,,,,,,,,m3'']"
proof -
  have h: "\<forall>p \<in> set [''a.csv'', ''b.csv'']. \<exists>body. fs_example p = Some (Contents body)
             \<and> (\<forall>l \<in> set (data_lines body). s_ElementCount ATHYG_V1 \<le> count_list l (CHR '','') + 1)"
    by (simp add: fs_example_def data_lines_a data_lines_b)
  from Load_well_formed [where fs = fs_example, OF h] show ?thesis
    by (simp add: path_lines_example)
qed

text \<open>
  C2, amended. If a data line of a listed file has fewer tokens than the version has
  columns, no row is built from that line and \<open>Load\<close> returns no rows at all but an
  error, whatever the other lines and files hold. The error is the element-count error
  when every path listed before that file exists; a missing path before it is met first.
\<close>

theorem short_line_aborts:
  assumes "p \<in> set paths" and "fs p = Some (Contents body)" and "l \<in> set (data_lines body)"
    and "count_list l (CHR '','') + 1 < s_ElementCount T"
  shows "deserialise_line T l = Inl ElementCountMismatch
         \<and> (\<exists>err. Load T fs paths = Inl err)
         \<and> ((\<forall>q \<in> set (takeWhile (\<lambda>q. q \<noteq> p) paths). fs q \<noteq> None)
              \<longrightarrow> Load T fs paths = Inl ElementCountMismatch)"
proof -
  from assms(4) have s: "short_line T l" by (simp add: short_line_def)
  with assms(2,3) have ex: "list_ex (short_line T) (path_lines fs p)"
    by (auto simp: path_lines_def file_text_def list_ex_iff)
  from s have "deserialise_line T l = Inl ElementCountMismatch"
    by (simp add: deserialise_line_eq)
  moreover from load_all_fails [OF assms(1), of fs T] ex have "\<exists>err. Load T fs paths = Inl err"
    by (simp add: Load_all)
  moreover have "(\<forall>q \<in> set (takeWhile (\<lambda>q. q \<noteq> p) paths). fs q \<noteq> None)
              \<longrightarrow> Load T fs paths = Inl ElementCountMismatch"
    using load_all_first_short [OF assms(1) ex] by (simp add: Load_all)
  ultimately show ?thesis by blast
qed

theorem short_line_first_counterexample:
  "''short.csv'' \<in> set [''missing.csv'', ''short.csv'']
   \<and> fs_example ''short.csv'' = Some (Contents ''id,tyc\<newline>x'')
   \<and> ''x'' \<in> set (data_lines ''id,tyc\<newline>x'')
   \<and> count_list ''x'' (CHR '','') + 1 < s_ElementCount ATHYG_V1
   \<and> Load ATHYG_V1 fs_example [''missing.csv'', ''short.csv''] = Inl PathNotValid
   \<and> Load ATHYG_V1 fs_example [''missing.csv'', ''short.csv''] \<noteq> Inl ElementCountMismatch"
  by (simp add: data_lines_short Load_def path_exists_def fs_example_def)

theorem short_line_aborts_witness:
  "Load ATHYG_V1 fs_example [''a.csv'', ''short.csv''] = Inl ElementCountMismatch
   \<and> deserialise_line ATHYG_V1 ''x'' = Inl ElementCountMismatch"
proof -
  have p: "''short.csv'' \<in> set [''a.csv'', ''short.csv'']" by simp
  have f: "fs_example ''short.csv'' = Some (Contents ''id,tyc\<newline>x'')"
    by (simp add: fs_example_def)
  have l: "''x'' \<in> set (data_lines ''id,tyc\<newline>x'')" by (simp add: data_lines_short)
  have c: "count_list ''x'' (CHR '','') + 1 < s_ElementCount ATHYG_V1" by simp
  have q: "\<forall>q \<in> set (takeWhile (\<lambda>q. q \<noteq> ''short.csv'') [''a.csv'', ''short.csv'']).
             fs_example q \<noteq> None"
    by (simp add: fs_example_def)
  from short_line_aborts [where fs = fs_example, OF p f l c] q show ?thesis by blast
qed

text \<open>
  C3, amended. If a listed path does not exist, \<open>Load\<close> returns no rows at all but an
  error, also when files before it were read without fault. The error is the invalid-path
  error when every data line of the files listed before the first missing path has at
  least as many tokens as the version has columns; a shorter line before it is met first.
\<close>

theorem missing_path_aborts:
  assumes "p \<in> set paths" and "fs p = None"
  shows "(\<exists>err. Load T fs paths = Inl err)
         \<and> ((\<forall>q \<in> set (takeWhile (\<lambda>q. fs q \<noteq> None) paths). \<forall>l \<in> set (path_lines fs q).
                 s_ElementCount T \<le> count_list l (CHR '','') + 1)
              \<longrightarrow> Load T fs paths = Inl PathNotValid)"
proof (intro conjI impI)
  from load_all_fails [OF assms(1), of fs T] assms(2) show "\<exists>err. Load T fs paths = Inl err"
    by (simp add: Load_all)
next
  assume "\<forall>q \<in> set (takeWhile (\<lambda>q. fs q \<noteq> None) paths). \<forall>l \<in> set (path_lines fs q).
                 s_ElementCount T \<le> count_list l (CHR '','') + 1"
  then have "\<forall>q \<in> set (takeWhile (\<lambda>q. fs q \<noteq> None) paths). \<not> list_ex (short_line T) (path_lines fs q)"
    unfolding list_ex_iff short_line_def by (meson not_less)
  from load_all_first_missing [OF assms this] show "Load T fs paths = Inl PathNotValid"
    by (simp add: Load_all)
qed

theorem missing_path_later_counterexample:
  "''missing.csv'' \<in> set [''short.csv'', ''missing.csv'']
   \<and> fs_example ''missing.csv'' = None
   \<and> Load ATHYG_V1 fs_example [''short.csv'', ''missing.csv''] = Inl ElementCountMismatch
   \<and> Load ATHYG_V1 fs_example [''short.csv'', ''missing.csv''] \<noteq> Inl PathNotValid"
proof -
  have "fs_example ''short.csv'' \<noteq> None" "fs_example ''missing.csv'' = None"
    by (simp_all add: fs_example_def)
  then show ?thesis
    by (simp add: Load_all load_all_step path_lines_example short_line_def del: load_all.simps)
qed

theorem missing_path_aborts_witness:
  "Load ATHYG_V1 fs_example [''a.csv'', ''missing.csv''] = Inl PathNotValid"
proof -
  have p: "''missing.csv'' \<in> set [''a.csv'', ''missing.csv'']" by simp
  have f: "fs_example ''missing.csv'' = None" by (simp add: fs_example_def)
  have "takeWhile (\<lambda>q. fs_example q \<noteq> None) [''a.csv'', ''missing.csv''] = [''a.csv'']"
    by (simp add: fs_example_def)
  then have q: "\<forall>q \<in> set (takeWhile (\<lambda>q. fs_example q \<noteq> None) [''a.csv'', ''missing.csv'']).
             \<forall>l \<in> set (path_lines fs_example q). s_ElementCount ATHYG_V1 \<le> count_list l (CHR '','') + 1"
    by (simp add: path_lines_example)
  from missing_path_aborts [where fs = fs_example, OF p f, of ATHYG_V1] q show ?thesis by blast
qed

text \<open>
  C4, amended. For a column of integer kind (\<open>size_t\<close>) or of decimal kind (\<open>double\<close>) and
  every token of a line, parsing gives a present value exactly when the base-10 conversion
  of the token's text consumes at least one character, white space that it skips
  included, and the value is the one converted. The empty token is absent. A token whose
  first character is neither white space, nor a digit, nor a sign (nor, for a decimal
  column, a point or the first letter of an infinity or a NaN) is absent. The token
  \<open>42xyz\<close> is present with the value 42.
\<close>

theorem TryParse_numeric:
  assumes "t \<in> set (Split (to_view line) (CHR '','') n)"
  shows "TryParse_size_t t
           = (if snd (strtoul (sv_str t)) = 0 then None else Some (fst (strtoul (sv_str t))))
       \<and> TryParse_double t
           = (if snd (strtod (sv_str t)) = 0 then None else Some (fst (strtod (sv_str t))))
       \<and> (sv_str t = [] \<longrightarrow> TryParse_size_t t = None \<and> TryParse_double t = None)
       \<and> (\<forall>c cs. sv_str t = c # cs \<and> \<not> isspace c \<and> \<not> isdigit c
                  \<and> c \<noteq> CHR ''+'' \<and> c \<noteq> CHR ''-''
              \<longrightarrow> TryParse_size_t t = None)
       \<and> (\<forall>c cs. sv_str t = c # cs \<and> \<not> isspace c \<and> \<not> isdigit c
                  \<and> c \<noteq> CHR ''+'' \<and> c \<noteq> CHR ''-'' \<and> c \<notin> set ''.iInN''
              \<longrightarrow> TryParse_double t = None)
       \<and> (sv_str t = ''42xyz''
              \<longrightarrow> TryParse_size_t t = Some 42 \<and> TryParse_double t = Some (Dec False 42 0))"
proof -
  have u: "TryParse_size_t t
           = (if snd (strtoul (sv_str t)) = 0 then None else Some (fst (strtoul (sv_str t))))"
    unfolding TryParse_size_t_def TryParse_unsigned_long_def
    using assms by (rule TryParse_token_text) (rule strtoul_tail)
  have d: "TryParse_double t
           = (if snd (strtod (sv_str t)) = 0 then None else Some (fst (strtod (sv_str t))))"
    unfolding TryParse_double_def
    using assms by (rule TryParse_token_text) (rule strtod_tail)
  have e: "TryParse_size_t t = None \<and> TryParse_double t = None" if "sv_str t = []"
    unfolding u d that by (simp add: strtoul_Nil strtod_Nil)
  have nu: "TryParse_size_t t = None"
    if "sv_str t = c # cs \<and> \<not> isspace c \<and> \<not> isdigit c \<and> c \<noteq> CHR ''+'' \<and> c \<noteq> CHR ''-''"
    for c cs
    using that unfolding u by (simp add: strtoul_no_start)
  have nd: "TryParse_double t = None"
    if "sv_str t = c # cs \<and> \<not> isspace c \<and> \<not> isdigit c \<and> c \<noteq> CHR ''+'' \<and> c \<noteq> CHR ''-''
        \<and> c \<notin> set ''.iInN''"
    for c cs
  proof -
    from that have "strtod (c # cs) = (Dec False 0 0, 0)"
      by (intro strtod_no_start) simp_all
    with that show ?thesis unfolding d by simp
  qed
  have x: "TryParse_size_t t = Some 42 \<and> TryParse_double t = Some (Dec False 42 0)"
    if "sv_str t = ''42xyz''"
    unfolding u d that by (simp add: strtoul_42xyz strtod_42xyz)
  from u d e nu nd x show ?thesis by blast
qed

theorem leading_space_counterexample:
  "sv_str (to_view '' 42'') = CHR '' '' # ''42''
   \<and> \<not> isdigit (CHR '' '') \<and> CHR '' '' \<noteq> CHR ''+'' \<and> CHR '' '' \<noteq> CHR ''-''
   \<and> TryParse_size_t (to_view '' 42'') = Some 42
   \<and> TryParse_double (to_view '' 42'') = Some (Dec False 42 0)"
proof -
  have "strtoul '' 42'' = (42, 3)"
    by (simp add: strtoul_def scan_int_def isspace_def isdigit_def sign_len_def is_neg_def
        digits_val_def digit_val_def)
  then have u: "TryParse_size_t (to_view '' 42'') = Some 42"
    by (simp add: TryParse_size_t_def TryParse_unsigned_long_def TryParse_with_def sv_data_to_view)
  have "strtod '' 42'' = (Dec False 42 0, 3)"
    by (simp add: strtod_def scan_float_42 isspace_def sign_len_def is_neg_def)
  then have d: "TryParse_double (to_view '' 42'') = Some (Dec False 42 0)"
    by (simp add: TryParse_double_def TryParse_with_def sv_data_to_view)
  from u d show ?thesis
    by (simp add: sv_str_to_view isdigit_def)
qed

theorem TryParse_numeric_witness:
  "TryParse_size_t (View ''42xyz,,abc'' 0 5) = Some 42
   \<and> TryParse_double (View ''42xyz,,abc'' 0 5) = Some (Dec False 42 0)
   \<and> TryParse_size_t (View ''42xyz,,abc'' 6 0) = None
   \<and> TryParse_double (View ''42xyz,,abc'' 6 0) = None
   \<and> TryParse_size_t (View ''42xyz,,abc'' 7 3) = None
   \<and> TryParse_double (View ''42xyz,,abc'' 7 3) = None"
proof -
  have t: "View ''42xyz,,abc'' 0 5 \<in> set (Split (to_view ''42xyz,,abc'') (CHR '','') 0)"
    "View ''42xyz,,abc'' 6 0 \<in> set (Split (to_view ''42xyz,,abc'') (CHR '','') 0)"
    "View ''42xyz,,abc'' 7 3 \<in> set (Split (to_view ''42xyz,,abc'') (CHR '','') 0)"
    by (simp_all add: Split_42xyz)
  have s: "sv_str (View ''42xyz,,abc'' 0 5) = ''42xyz''"
    "sv_str (View ''42xyz,,abc'' 6 0) = []"
    "sv_str (View ''42xyz,,abc'' 7 3) = CHR ''a'' # ''bc''"
    by (simp_all add: sv_str_def)
  have a: "\<not> isspace (CHR ''a'') \<and> \<not> isdigit (CHR ''a'') \<and> CHR ''a'' \<noteq> CHR ''+''
           \<and> CHR ''a'' \<noteq> CHR ''-'' \<and> CHR ''a'' \<notin> set ''.iInN''"
    by (simp add: isspace_def isdigit_def)
  from TryParse_numeric [OF t(1)] TryParse_numeric [OF t(2)] TryParse_numeric [OF t(3)] s a
  show ?thesis by blast
qed

text \<open>
  C5. Parsing a token of a line as a boolean always gives a present value, also for the
  empty token, and that value is true exactly when the token's text is one of the five
  literals \<open>true\<close>, \<open>True\<close>, \<open>TRUE\<close>, \<open>T\<close>, \<open>1\<close>; every other token gives present(false).
  A token is a view into its line, so its \<open>data()\<close> is not \<open>nullptr\<close>, which is the one
  pointer the test \<open>e == _str.data()\<close> of line 203 turns into an absent value.
\<close>

theorem TryParse_bool_present:
  assumes "t \<in> set (Split (to_view line) d n)"
  shows "TryParse_bool t = Some (sv_str t \<in> {''true'', ''True'', ''TRUE'', ''T'', ''1''})"
proof -
  from assms have "token_of line d t" by (rule Split_token_of)
  then have "data_ptr t \<noteq> None" by (simp add: token_of_def data_ptr_def)
  then show ?thesis by (auto simp: TryParse_bool_def)
qed

theorem TryParse_bool_present_witness:
  "TryParse_bool (View ''true,,T,yes'' 0 4) = Some True
   \<and> TryParse_bool (View ''true,,T,yes'' 5 0) = Some False
   \<and> TryParse_bool (View ''true,,T,yes'' 6 1) = Some True
   \<and> TryParse_bool (View ''true,,T,yes'' 8 3) = Some False"
proof -
  have t: "View ''true,,T,yes'' 0 4 \<in> set (Split (to_view ''true,,T,yes'') (CHR '','') 0)"
    "View ''true,,T,yes'' 5 0 \<in> set (Split (to_view ''true,,T,yes'') (CHR '','') 0)"
    "View ''true,,T,yes'' 6 1 \<in> set (Split (to_view ''true,,T,yes'') (CHR '','') 0)"
    "View ''true,,T,yes'' 8 3 \<in> set (Split (to_view ''true,,T,yes'') (CHR '','') 0)"
    by (simp_all add: Split_bools)
  from TryParse_bool_present [OF t(1)] TryParse_bool_present [OF t(2)]
    TryParse_bool_present [OF t(3)] TryParse_bool_present [OF t(4)]
  show ?thesis by (simp add: sv_str_def)
qed

text \<open>
  C6. For every text and delimiter, \<open>Split\<close> returns one token more than the text has
  delimiters, no token contains the delimiter, and the tokens joined by the delimiter are
  the text again: every delimiter is a boundary, adjacent delimiters give empty tokens, a
  delimiter at the end gives a last empty token, and the last token is always there.
\<close>

theorem Split_tokens:
  "length (Split v d cap) = count_list (sv_str v) d + 1
   \<and> (\<forall>t \<in> set (Split v d cap). d \<notin> set (sv_str t))
   \<and> join d (map sv_str (Split v d cap)) = sv_str v"
proof (intro conjI ballI)
  have "length (Split v d cap) = length (map sv_str (Split v d cap))" by simp
  also have "\<dots> = count_list (sv_str v) d + 1"
    by (simp only: Split_fields length_split_fields)
  finally show "length (Split v d cap) = count_list (sv_str v) d + 1" .
next
  fix t assume "t \<in> set (Split v d cap)"
  then have "sv_str t \<in> set (map sv_str (Split v d cap))" by simp
  then show "d \<notin> set (sv_str t)"
    by (simp only: Split_fields split_fields_no_delimiter not_False_eq_True)
next
  show "join d (map sv_str (Split v d cap)) = sv_str v"
    by (simp only: Split_fields join_split_fields)
qed

lemma Split_example:
  "Split (to_view ''a,,b,'') (CHR '','') 0
     = [View ''a,,b,'' 0 1, View ''a,,b,'' 2 0, View ''a,,b,'' 3 1, View ''a,,b,'' 5 0]"
  by (simp add: Split_def Split_loop.simps find_sv_def sv_str_def substr_def to_view_def)

theorem Split_tokens_witness:
  "View ''a,,b,'' 3 1 \<in> set (Split (to_view ''a,,b,'') (CHR '','') 0)
   \<and> CHR '','' \<notin> set (sv_str (View ''a,,b,'' 3 1))
   \<and> length (Split (to_view ''a,,b,'') (CHR '','') 0) = 4
   \<and> join (CHR '','') (map sv_str (Split (to_view ''a,,b,'') (CHR '','') 0)) = ''a,,b,''"
proof -
  have m: "View ''a,,b,'' 3 1 \<in> set (Split (to_view ''a,,b,'') (CHR '','') 0)"
    by (simp add: Split_example)
  have s: "sv_str (to_view ''a,,b,'') = ''a,,b,''"
    by (simp add: sv_str_def to_view_def)
  have c: "count_list ''a,,b,'' (CHR '','') + 1 = 4"
    by simp
  from Split_tokens [of "to_view ''a,,b,''" "CHR '',''" 0] m show ?thesis
    unfolding s c by blast
qed

text \<open>
  C7. For each version, a line with more tokens than the version has columns is cut to
  exactly that many tokens, and a row is built from them without any error.
\<close>

theorem excess_tokens_truncated:
  assumes "s_ElementCount T < length (Split (to_view line) (CHR '','') (s_ElementCount T))"
  shows "length (resize (s_ElementCount T) (Split (to_view line) (CHR '','') (s_ElementCount T)))
           = s_ElementCount T
         \<and> deserialise_line T line
           = Inr (construct T (take (s_ElementCount T)
                                 (Split (to_view line) (CHR '','') (s_ElementCount T))))"
  using assms by (simp add: deserialise_line_def resize_def ToArray_def Let_def)

theorem excess_tokens_truncated_witness:
  "23 < length (Split (to_view ''1,t,,,,,,,,,,,,,,,,,,,,,m,x,y'') (CHR '','') 23)
   \<and> deserialise_line ATHYG_V1 ''1,t,,,,,,,,,,,,,,,,,,,,,m,x,y'' =
     Inr (Star_V1 \<lparr>V1_id = Some 1,
      V1_tyc = Some ''t'',
      V1_gaia = None,
      V1_hyg = None,
      V1_hip = None,
      V1_hd = None,
      V1_hr = None,
      V1_gl = Some [],
      V1_bayer = Some [],
      V1_flam = Some [],
      V1_con = Some [],
      V1_proper = Some [],
      V1_ra = None,
      V1_dec = None,
      V1_pos_src = Some [],
      V1_dist = None,
      V1_x0 = None,
      V1_y0 = None,
      V1_z0 = None,
      V1_dist_src = Some [],
      V1_mag = None,
      V1_absmag = None,
      V1_mag_src = Some ''m''\<rparr>)"
proof -
  have h: "s_ElementCount ATHYG_V1 < length (Split (to_view ''1,t,,,,,,,,,,,,,,,,,,,,,m,x,y'') (CHR '','') (s_ElementCount ATHYG_V1))"
    by (simp add: length_Split)
  from excess_tokens_truncated [OF h] h show ?thesis
    unfolding row_excess [unfolded row_def] by simp
qed

text \<open>
  C8. In every row of every version each string member is present and holds the text of
  its token, the empty text for an empty token; \<open>TryParse<std::string>\<close> never returns
  an empty optional either.
\<close>

theorem text_fields_present:
  "text_fields (construct T values) = map (\<lambda>i. Some (sv_str (values ! i))) (text_columns T)
   \<and> None \<notin> set (text_fields (construct T values))
   \<and> TryParse_string t = Some (sv_str t)"
proof -
  have a: "text_fields (construct T values) = map (\<lambda>i. Some (sv_str (values ! i))) (text_columns T)"
    by (cases T) (simp_all add: V1_ctor_def V2_ctor_def V3_ctor_def)
  have "None \<notin> set (map (\<lambda>i. Some (sv_str (values ! i))) (text_columns T))"
    by auto
  with a show ?thesis by (simp add: TryParse_string_def)
qed

text \<open>
  C9. A file that is empty, or holds only a header line with or without its newline,
  contributes no row and raises no error: \<open>Load\<close> goes on with the next path as if the
  file were not listed, and alone it gives the empty result.
\<close>

theorem header_only_file_skipped:
  assumes "fs p = Some (Contents body)" and "CHR 0x0A \<notin> set hdr"
    and "body = [] \<or> body = hdr \<or> body = hdr @ [CHR 0x0A]"
  shows "Load T fs (ps @ p # qs) = Load T fs (ps @ qs) \<and> Load T fs [p] = Inr []"
proof -
  from data_lines_header_only [OF assms(2,3)] assms(1) have pl: "path_lines fs p = []"
    by (simp add: path_lines_def file_text_def)
  with assms(1) have step: "load_all T fs (p # rest) = load_all T fs rest" for rest
    by (cases "load_all T fs rest") (simp_all add: load_all_step del: load_all.simps)
  have "load_all T fs (ps @ p # qs) = load_all T fs (ps @ qs)"
    by (simp only: load_all_append [of T fs ps] step)
  moreover have "load_all T fs [p] = Inr []"
    using step [of "[]"] by simp
  ultimately show ?thesis by (simp only: Load_all simp_thms)
qed

theorem header_only_file_skipped_witness:
  "Load ATHYG_V1 fs_example [''header.csv'', ''a.csv''] = Load ATHYG_V1 fs_example [''a.csv'']
   \<and> Load ATHYG_V1 fs_example [''header.csv''] = Inr []"
proof -
  have f: "fs_example ''header.csv'' = Some (Contents (''id,tyc'' @ [CHR 0x0A]))"
    by (simp add: fs_example_def)
  have n: "CHR 0x0A \<notin> set ''id,tyc''" by simp
  have b: "''id,tyc'' @ [CHR 0x0A] = [] \<or> ''id,tyc'' @ [CHR 0x0A] = ''id,tyc''
           \<or> ''id,tyc'' @ [CHR 0x0A] = ''id,tyc'' @ [CHR 0x0A]" by simp
  from header_only_file_skipped [where fs = fs_example and ps = "[]" and qs = "[''a.csv'']", OF f n b, of ATHYG_V1]
  show ?thesis by simp
qed

text \<open>
  C10, amended. For a column of unsigned integer kind, a token that is a minus sign
  followed by decimal digits is present. When the digits write a number of at most
  \<open>2 ^ 64 - 1\<close>, the range of \<open>unsigned long\<close>, the value is that number negated and
  reduced modulo \<open>2 ^ w\<close> for the width \<open>w\<close> of the field; a larger number makes the
  conversion return \<open>ULONG_MAX\<close>, and the value is \<open>2 ^ w - 1\<close>.
\<close>

theorem TryParse_unsigned_minus:
  assumes "t \<in> set (Split (to_view line) (CHR '','') n)"
    and "sv_str t = CHR ''-'' # ds" and "ds \<noteq> []" and "list_all isdigit ds"
  shows "(digits_val 10 ds \<le> 2 ^ 64 - 1 \<longrightarrow>
            TryParse_size_t t = Some (word_of_int (- int (digits_val 10 ds)))
          \<and> TryParse_unsigned_long t = Some (word_of_int (- int (digits_val 10 ds)))
          \<and> TryParse_unsigned_long_long t = Some (word_of_int (- int (digits_val 10 ds)))
          \<and> TryParse_unsigned_int t = Some (word_of_int (- int (digits_val 10 ds)))
          \<and> TryParse_unsigned_short t = Some (word_of_int (- int (digits_val 10 ds))))
       \<and> (2 ^ 64 - 1 < digits_val 10 ds \<longrightarrow>
            TryParse_size_t t = Some (- 1)
          \<and> TryParse_unsigned_long t = Some (- 1)
          \<and> TryParse_unsigned_long_long t = Some (- 1)
          \<and> TryParse_unsigned_int t = Some (- 1)
          \<and> TryParse_unsigned_short t = Some (- 1))"
proof -
  let ?n = "digits_val 10 ds"
  let ?r = "if 2 ^ 64 - 1 < ?n then - 1 else word_of_int (- int ?n) :: 64 word"
  have s: "strtoul (sv_str t) = (?r, Suc (length ds))"
    unfolding assms(2) using assms(3,4) by (rule strtoul_minus)
  have l: "TryParse_with strtoul t = Some ?r"
    using TryParse_token_text [OF assms(1), of strtoul] by (simp add: strtoul_tail s)
  have i: "TryParse_with (narrow strtoul) t = Some (ucast ?r :: 32 word)"
    using TryParse_token_text [OF assms(1), of "narrow strtoul :: string \<Rightarrow> 32 word \<times> nat"]
    by (simp add: narrow_tail strtoul_tail narrow_def s)
  have h: "TryParse_with (narrow strtoul) t = Some (ucast ?r :: 16 word)"
    using TryParse_token_text [OF assms(1), of "narrow strtoul :: string \<Rightarrow> 16 word \<times> nat"]
    by (simp add: narrow_tail strtoul_tail narrow_def s)
  have small: "?r = word_of_int (- int ?n)" if "?n \<le> 2 ^ 64 - 1"
    using that by simp
  have big: "?r = - 1" if "2 ^ 64 - 1 < ?n"
    using that by simp
  note defs = TryParse_size_t_def TryParse_unsigned_long_def TryParse_unsigned_long_long_def
    TryParse_unsigned_int_def TryParse_unsigned_short_def
  show ?thesis
  proof (intro conjI impI)
    assume c: "?n \<le> 2 ^ 64 - 1"
    note r = small [OF c]
    from l show "TryParse_size_t t = Some (word_of_int (- int ?n))"
      and "TryParse_unsigned_long t = Some (word_of_int (- int ?n))"
      and "TryParse_unsigned_long_long t = Some (word_of_int (- int ?n))"
      unfolding r defs by assumption+
    from i show "TryParse_unsigned_int t = Some (word_of_int (- int ?n))"
      unfolding r defs narrow_word_of_int by assumption
    from h show "TryParse_unsigned_short t = Some (word_of_int (- int ?n))"
      unfolding r defs narrow_word_of_int by assumption
  next
    assume c: "2 ^ 64 - 1 < ?n"
    note r = big [OF c]
    from l show "TryParse_size_t t = Some (- 1)"
      and "TryParse_unsigned_long t = Some (- 1)"
      and "TryParse_unsigned_long_long t = Some (- 1)"
      unfolding r defs by assumption+
    from i show "TryParse_unsigned_int t = Some (- 1)"
      unfolding r defs narrow_minus_one by assumption
    from h show "TryParse_unsigned_short t = Some (- 1)"
      unfolding r defs narrow_minus_one by assumption
  qed
qed

theorem minus_overflow_counterexample:
  "sv_str (to_view ''-18446744073709551616'') = CHR ''-'' # ''18446744073709551616''
   \<and> digits_val 10 ''18446744073709551616'' = 2 ^ 64
   \<and> TryParse_size_t (to_view ''-18446744073709551616'') = Some (2 ^ 64 - 1)
   \<and> TryParse_size_t (to_view ''-18446744073709551616'') \<noteq> Some (word_of_int (- (2 ^ 64)))"
proof -
  have d: "list_all isdigit ''18446744073709551616''" by (simp add: isdigit_def)
  have "strtoul (CHR ''-'' # ''18446744073709551616'') = (- 1, 21)"
    using strtoul_minus [OF _ d] by (simp add: digits_val_2_64)
  then have "TryParse_size_t (to_view ''-18446744073709551616'') = Some (- 1)"
    by (simp add: TryParse_size_t_def TryParse_unsigned_long_def TryParse_with_def sv_data_to_view)
  then show ?thesis
    by (simp add: sv_str_to_view digits_val_2_64)
qed

theorem TryParse_unsigned_minus_witness:
  "TryParse_size_t (View ''-1,x'' 0 2) = Some 18446744073709551615
   \<and> TryParse_unsigned_int (View ''-1,x'' 0 2) = Some 4294967295
   \<and> TryParse_unsigned_short (View ''-1,x'' 0 2) = Some 65535
   \<and> TryParse_size_t (View ''-18446744073709551616'' 0 21) = Some 18446744073709551615
   \<and> TryParse_unsigned_int (View ''-18446744073709551616'' 0 21) = Some 4294967295"
proof -
  have t: "View ''-1,x'' 0 2 \<in> set (Split (to_view ''-1,x'') (CHR '','') 0)"
    by (simp add: Split_minus_one)
  have s: "sv_str (View ''-1,x'' 0 2) = CHR ''-'' # ''1''" by (simp add: sv_str_def)
  have d: "list_all isdigit ''1''" by (simp add: isdigit_def)
  have v: "digits_val 10 ''1'' = 1" by (simp add: digits_val_def digit_val_def isdigit_def)
  have t': "View ''-18446744073709551616'' 0 21
              \<in> set (Split (to_view ''-18446744073709551616'') (CHR '','') 0)"
    by (simp add: Split_minus_big)
  have s': "sv_str (View ''-18446744073709551616'' 0 21) = CHR ''-'' # ''18446744073709551616''"
    by (simp add: sv_str_def)
  have d': "list_all isdigit ''18446744073709551616''" by (simp add: isdigit_def)
  from TryParse_unsigned_minus [OF t s _ d] TryParse_unsigned_minus [OF t' s' _ d']
  show ?thesis
    unfolding v digits_val_2_64 by simp
qed

end
